theory Spec2Isabelle
  imports Complex_Main "HOL-Library.AList" "HOL-Library.Sublist"
begin

section \<open>Errors\<close>

text \<open>
  The exceptions the modelled code raises. Each carries the message that \<open>str(e)\<close>
  returns in the source.
\<close>

datatype error = ValueError string | KeyError string | RuntimeError string

fun str_of_error :: "error \<Rightarrow> string" where
  "str_of_error (ValueError m) = m"
| "str_of_error (KeyError m) = m"
| "str_of_error (RuntimeError m) = m"

section \<open>The LRU cache of \<open>task_extraction.py\<close>\<close>

text \<open>
  \<open>_LRUCache\<close> keeps an \<open>OrderedDict\<close>: an association list with distinct keys in
  insertion order, the oldest entry first. \<open>pop(key)\<close> removes the entry of a key,
  \<open>popitem(last=False)\<close> removes the first entry and raises \<open>KeyError\<close> on an empty
  dictionary, and assigning to an absent key appends at the end.
\<close>

record ('k, 'v) LRUCache =
  capacity :: int
  cache_map :: "('k \<times> 'v) list"

definition LRUCache_init :: "int \<Rightarrow> ('k, 'v) LRUCache" where
  "LRUCache_init cap = \<lparr>capacity = cap, cache_map = []\<rparr>"

definition LRUCache_get :: "('k, 'v) LRUCache \<Rightarrow> 'k \<Rightarrow> 'v option \<times> ('k, 'v) LRUCache" where
  "LRUCache_get c key =
     (case map_of (cache_map c) key of
        None \<Rightarrow> (None, c)
      | Some v \<Rightarrow> (Some v, c\<lparr>cache_map := AList.delete key (cache_map c) @ [(key, v)]\<rparr>))"

definition LRUCache_set :: "('k, 'v) LRUCache \<Rightarrow> 'k \<Rightarrow> 'v \<Rightarrow> error + ('k, 'v) LRUCache" where
  "LRUCache_set c key v =
     (if key \<in> fst ` set (cache_map c)
      then Inr (c\<lparr>cache_map := AList.delete key (cache_map c) @ [(key, v)]\<rparr>)
      else if int (length (cache_map c)) \<ge> capacity c
      then (case cache_map c of
              [] \<Rightarrow> Inl (KeyError ''dictionary is empty'')
            | _ # rest \<Rightarrow> Inr (c\<lparr>cache_map := rest @ [(key, v)]\<rparr>))
      else Inr (c\<lparr>cache_map := cache_map c @ [(key, v)]\<rparr>))"

text \<open>
  A sequence of operations on one cache object. A \<open>set\<close> that raises leaves the
  dictionary as it was (the exception comes from \<open>popitem\<close>, before any assignment),
  and the object lives on for the next operation.
\<close>

datatype ('k, 'v) cache_op = Get 'k | Set 'k 'v

fun apply_cache_op :: "('k, 'v) LRUCache \<Rightarrow> ('k, 'v) cache_op \<Rightarrow> ('k, 'v) LRUCache" where
  "apply_cache_op c (Get k) = snd (LRUCache_get c k)"
| "apply_cache_op c (Set k v) = (case LRUCache_set c k v of Inl e \<Rightarrow> c | Inr c' \<Rightarrow> c')"

definition run_cache_ops :: "('k, 'v) LRUCache \<Rightarrow> ('k, 'v) cache_op list \<Rightarrow> ('k, 'v) LRUCache" where
  "run_cache_ops c ops = foldl apply_cache_op c ops"

text \<open>
  Recency, as the specification words it: a key is used by a \<open>get\<close> that hits and by
  every \<open>set\<close> that succeeds. \<open>last_use\<close> replays a history and stamps each key with
  the position of the operation that used it last.
\<close>

record ('k, 'v) stamped =
  st_cache :: "('k, 'v) LRUCache"
  last_use :: "'k \<Rightarrow> nat"
  clock :: nat

fun stamped_op :: "('k, 'v) stamped \<Rightarrow> ('k, 'v) cache_op \<Rightarrow> ('k, 'v) stamped" where
  "stamped_op s (Get k) =
     (case LRUCache_get (st_cache s) k of
        (None, c') \<Rightarrow> \<lparr>st_cache = c', last_use = last_use s, clock = Suc (clock s)\<rparr>
      | (Some v, c') \<Rightarrow> \<lparr>st_cache = c', last_use = (last_use s)(k := clock s), clock = Suc (clock s)\<rparr>)"
| "stamped_op s (Set k v) =
     (case LRUCache_set (st_cache s) k v of
        Inl e \<Rightarrow> \<lparr>st_cache = st_cache s, last_use = last_use s, clock = Suc (clock s)\<rparr>
      | Inr c' \<Rightarrow> \<lparr>st_cache = c', last_use = (last_use s)(k := clock s), clock = Suc (clock s)\<rparr>)"

definition stamped_init :: "int \<Rightarrow> ('k, 'v) stamped" where
  "stamped_init cap = \<lparr>st_cache = LRUCache_init cap, last_use = (\<lambda>_. 0), clock = 0\<rparr>"

definition run_stamped :: "int \<Rightarrow> ('k, 'v) cache_op list \<Rightarrow> ('k, 'v) stamped" where
  "run_stamped cap ops = foldl stamped_op (stamped_init cap) ops"

definition cache_keys :: "('k, 'v) LRUCache \<Rightarrow> 'k list" where
  "cache_keys c = map fst (cache_map c)"

text \<open>
  The dictionary order is the recency order: keys distinct, stamps strictly increasing
  along the dictionary, every stamp in the past.
\<close>

definition recency_ordered :: "('k, 'v) stamped \<Rightarrow> bool" where
  "recency_ordered s \<longleftrightarrow>
     distinct (cache_keys (st_cache s)) \<and>
     sorted_wrt (\<lambda>a b. last_use s a < last_use s b) (cache_keys (st_cache s)) \<and>
     (\<forall>k \<in> set (cache_keys (st_cache s)). last_use s k < clock s)"

section \<open>Strings\<close>

text \<open>
  The strings of this model are ASCII text: one \<open>char\<close> per code point. On such text
  \<open>unicodedata.normalize("NFKC", _)\<close> is the identity, and the replacements of typographic
  quotes, dashes and the ellipsis in \<open>standardize_punctuation\<close> find nothing to replace.
  \<open>is_space\<close> is the ASCII part of what both \<open>str.strip()\<close> and the regular expression
  class \<open>\s\<close> accept: tab, line feed, vertical tab, form feed, carriage return, the four
  separators \<open>0x1c\<close> to \<open>0x1f\<close>, and the space.
\<close>

definition is_space :: "char \<Rightarrow> bool" where
  "is_space c \<longleftrightarrow> (let n = (of_char c :: nat) in (9 \<le> n \<and> n \<le> 13) \<or> (28 \<le> n \<and> n \<le> 32))"

definition strip :: "string \<Rightarrow> string" where
  "strip s = rev (dropWhile is_space (rev (dropWhile is_space s)))"

definition char_upper :: "char \<Rightarrow> char" where
  "char_upper c =
     (case map_of (zip ''abcdefghijklmnopqrstuvwxyz'' ''ABCDEFGHIJKLMNOPQRSTUVWXYZ'') c of
        Some u \<Rightarrow> u | None \<Rightarrow> c)"

definition char_lower :: "char \<Rightarrow> char" where
  "char_lower c =
     (case map_of (zip ''ABCDEFGHIJKLMNOPQRSTUVWXYZ'' ''abcdefghijklmnopqrstuvwxyz'') c of
        Some l \<Rightarrow> l | None \<Rightarrow> c)"

definition upper :: "string \<Rightarrow> string" where
  "upper s = map char_upper s"

definition lower :: "string \<Rightarrow> string" where
  "lower s = map char_lower s"

text \<open>\<open>sub in s\<close> on strings: \<open>sub\<close> occurs in \<open>s\<close> as a contiguous piece.\<close>

fun py_in :: "string \<Rightarrow> string \<Rightarrow> bool" where
  "py_in sub [] = (sub = [])"
| "py_in sub (c # cs) = (prefix sub (c # cs) \<or> py_in sub cs)"

text \<open>
  \<open>s.replace(old, "")\<close>: every occurrence of \<open>old\<close>, found from the left without
  overlap, is dropped. An empty \<open>old\<close> replaced by the empty string changes nothing.
\<close>

fun remove_all_sub :: "string \<Rightarrow> string \<Rightarrow> string" where
  "remove_all_sub old [] = []"
| "remove_all_sub old (c # cs) =
     (if old \<noteq> [] \<and> prefix old (c # cs)
      then remove_all_sub old (drop (length old - 1) cs)
      else c # remove_all_sub old cs)"

text \<open>Decimal rendering of an integer, as \<open>str.format\<close> prints it.\<close>

fun str_nat :: "nat \<Rightarrow> string" where
  "str_nat n = (if n < 10 then [''0123456789'' ! n] else str_nat (n div 10) @ [''0123456789'' ! (n mod 10)])"

declare str_nat.simps [simp del]

definition str_int :: "int \<Rightarrow> string" where
  "str_int i = (if i < 0 then CHR ''-'' # str_nat (nat (- i)) else str_nat (nat i))"

section \<open>Text cleaning (\<open>preprocessing.py\<close>)\<close>

text \<open>
  \<open>re.sub(r"<[^>]+>", "", text)\<close>. A match starts at a \<open><\<close>, takes at least one
  character other than \<open>></\<close> and ends at the first \<open>></\<close> after them. \<open>tag_end\<close> looks
  at the text behind a \<open><\<close> and returns what follows the match, if there is one.
\<close>

definition tag_end :: "string \<Rightarrow> string option" where
  "tag_end cs =
     (let body = takeWhile (\<lambda>c. c \<noteq> CHR ''>'') cs; rest = dropWhile (\<lambda>c. c \<noteq> CHR ''>'') cs
      in if body \<noteq> [] \<and> rest \<noteq> [] then Some (tl rest) else None)"

function sub_html_tags :: "string \<Rightarrow> string" where
  "sub_html_tags [] = []"
| "sub_html_tags (c # cs) =
     (if c = CHR ''<'' then
        (case tag_end cs of Some rest \<Rightarrow> sub_html_tags rest | None \<Rightarrow> c # sub_html_tags cs)
      else c # sub_html_tags cs)"
  by pat_completeness auto
termination
proof (relation "measure length")
  fix c :: char and cs rest :: string
  assume "tag_end cs = Some rest"
  then have "rest = tl (dropWhile (\<lambda>c. c \<noteq> CHR ''>'') cs)"
    by (auto simp: tag_end_def Let_def split: if_splits)
  moreover have "length (tl (dropWhile (\<lambda>c. c \<noteq> CHR ''>'') cs)) \<le> length cs"
    using length_dropWhile_le [of "\<lambda>c. c \<noteq> CHR ''>''" cs] by simp
  ultimately show "(rest, c # cs) \<in> measure length" by simp
qed auto

text \<open>
  \<open>re.sub(r"(?m)^(>+)\s?", "", text)\<close>. In multi-line mode \<open>^\<close> holds at the start
  of the text and after each line feed. The flag says whether the position is such a
  start; a match takes every \<open>></\<close> there and one whitespace character if one follows.
\<close>

function sub_quote_markers :: "bool \<Rightarrow> string \<Rightarrow> string" where
  "sub_quote_markers bol [] = []"
| "sub_quote_markers bol (c # cs) =
     (if bol \<and> c = CHR ''>'' then
        (case dropWhile (\<lambda>c. c = CHR ''>'') cs of
           [] \<Rightarrow> []
         | d # ds \<Rightarrow> if is_space d then sub_quote_markers (d = CHR 0x0A) ds
                     else sub_quote_markers False (d # ds))
      else c # sub_quote_markers (c = CHR 0x0A) cs)"
  by pat_completeness auto
termination
proof (relation "measure (\<lambda>(b, s). length s)")
  fix bol :: bool and c d :: char and cs ds :: string
  assume eq: "dropWhile (\<lambda>c. c = CHR ''>'') cs = d # ds"
  have "length (d # ds) \<le> length cs"
    using length_dropWhile_le [of "\<lambda>c. c = CHR ''>''" cs] eq by simp
  then show "((d = CHR 0x0A, ds), bol, c # cs) \<in> measure (\<lambda>(b, s). length s)"
    and "((False, d # ds), bol, c # cs) \<in> measure (\<lambda>(b, s). length s)"
    by simp_all
qed auto

text \<open>
  \<open>re.sub(r"&[^;\s]+;", "", text)\<close>: an ampersand, at least one character that is
  neither \<open>;\<close> nor whitespace, and a \<open>;\<close> right behind them.
\<close>

definition entity_end :: "string \<Rightarrow> string option" where
  "entity_end cs =
     (let ok = (\<lambda>c. c \<noteq> CHR '';'' \<and> \<not> is_space c);
          body = takeWhile ok cs; rest = dropWhile ok cs
      in case rest of
           [] \<Rightarrow> None
         | d # ds \<Rightarrow> if body \<noteq> [] \<and> d = CHR '';'' then Some ds else None)"

function sub_html_entities :: "string \<Rightarrow> string" where
  "sub_html_entities [] = []"
| "sub_html_entities (c # cs) =
     (if c = CHR ''&'' then
        (case entity_end cs of Some rest \<Rightarrow> sub_html_entities rest | None \<Rightarrow> c # sub_html_entities cs)
      else c # sub_html_entities cs)"
  by pat_completeness auto
termination
proof (relation "measure length")
  fix c :: char and cs rest :: string
  assume "entity_end cs = Some rest"
  then obtain d where "dropWhile (\<lambda>c. c \<noteq> CHR '';'' \<and> \<not> is_space c) cs = d # rest"
    by (auto simp: entity_end_def Let_def split: list.splits if_splits)
  then have "length (d # rest) \<le> length cs"
    using length_dropWhile_le [of "\<lambda>c. c \<noteq> CHR '';'' \<and> \<not> is_space c" cs] by simp
  then show "(rest, c # cs) \<in> measure length" by simp
qed auto

text \<open>
  \<open>re.sub(P + "+", r, text)\<close> for a character class \<open>P\<close>: each maximal run of
  characters of the class becomes the replacement \<open>r\<close>. It serves for \<open>\s+\<close> and
  \<open>[ \t]+\<close>, both replaced by one space.
\<close>

function sub_runs :: "(char \<Rightarrow> bool) \<Rightarrow> string \<Rightarrow> string \<Rightarrow> string" where
  "sub_runs P r [] = []"
| "sub_runs P r (c # cs) =
     (if P c then r @ sub_runs P r (dropWhile P cs) else c # sub_runs P r cs)"
  by pat_completeness auto
termination
proof (relation "measure (\<lambda>(P, r, s). length s)")
  fix P :: "char \<Rightarrow> bool" and r cs :: string and c :: char
  show "((P, r, dropWhile P cs), P, r, c # cs) \<in> measure (\<lambda>(P, r, s). length s)"
    using length_dropWhile_le [of P cs] by simp
qed auto

definition remove_html_tags :: "string \<Rightarrow> string" where
  "remove_html_tags text =
     (let text_no_tags = sub_html_tags text;
          text_no_tags = sub_quote_markers True text_no_tags;
          text_no_tags = sub_html_entities text_no_tags;
          text_no_tags = sub_runs is_space '' '' text_no_tags
      in strip text_no_tags)"

text \<open>
  \<open>re.sub(r"\r?\n+", "\n", text)\<close>: a run of line feeds, with the carriage return
  right before it if there is one, becomes one line feed.
\<close>

function sub_line_breaks :: "string \<Rightarrow> string" where
  "sub_line_breaks [] = []"
| "sub_line_breaks (c # cs) =
     (if c = CHR 0x0A then CHR 0x0A # sub_line_breaks (dropWhile (\<lambda>c. c = CHR 0x0A) cs)
      else if c = CHR 0x0D \<and> cs \<noteq> [] \<and> hd cs = CHR 0x0A
      then CHR 0x0A # sub_line_breaks (dropWhile (\<lambda>c. c = CHR 0x0A) cs)
      else c # sub_line_breaks cs)"
  by pat_completeness auto
termination
  by (relation "measure length") (auto simp: less_Suc_eq_le length_dropWhile_le)

definition normalize_whitespace :: "string \<Rightarrow> string" where
  "normalize_whitespace text =
     (let text = sub_runs (\<lambda>c. c = CHR '' '' \<or> c = CHR 0x09) '' '' text;
          text = sub_line_breaks text
      in strip text)"

text \<open>
  \<open>re.sub(r"([!?.,]){2,}", r"\1\1", text)\<close>: a run of two or more of the four marks
  becomes its last mark, twice (the group holds its last repetition).
\<close>

definition is_mark :: "char \<Rightarrow> bool" where
  "is_mark c \<longleftrightarrow> c = CHR ''!'' \<or> c = CHR ''?'' \<or> c = CHR ''.'' \<or> c = CHR '',''"

function sub_repeated_marks :: "string \<Rightarrow> string" where
  "sub_repeated_marks [] = []"
| "sub_repeated_marks (c # cs) =
     (if is_mark c \<and> cs \<noteq> [] \<and> is_mark (hd cs)
      then (let m = last (c # takeWhile is_mark cs)
            in m # m # sub_repeated_marks (dropWhile is_mark cs))
      else c # sub_repeated_marks cs)"
  by pat_completeness auto
termination
proof (relation "measure length")
  fix c :: char and cs :: string
  show "(dropWhile is_mark cs, c # cs) \<in> measure length"
    using length_dropWhile_le [of is_mark cs] by simp
qed auto

definition standardize_punctuation :: "string \<Rightarrow> string" where
  "standardize_punctuation text = sub_repeated_marks text"

record clean_options =
  opt_lowercase :: "bool option"
  opt_unwanted_chars :: "string list option"
  opt_format_type :: "string option"

definition clean_text :: "string \<Rightarrow> clean_options \<Rightarrow> string" where
  "clean_text text options =
     (let text = (if (case opt_lowercase options of None \<Rightarrow> True | Some b \<Rightarrow> b)
                  then lower text else text);
          text = remove_html_tags text;
          text = normalize_whitespace text;
          text = standardize_punctuation text;
          unwanted_chars = (case opt_unwanted_chars options of None \<Rightarrow> [] | Some l \<Rightarrow> l);
          text = foldl (\<lambda>t ch. remove_all_sub ch t) text unwanted_chars;
          text = (if opt_format_type options = Some ''email''
                  then sub_quote_markers True text else text)
      in normalize_whitespace text)"

section \<open>Task records and collaborator results\<close>

text \<open>
  The values stored in the task dictionary: \<open>None\<close>, a string, a float, or the nested
  dictionary of confidence scores, whose values are floats. Floats are modelled by the
  reals: the development is about the arithmetic the code writes down, not about
  rounding. A dictionary is an association list in insertion order.
\<close>

datatype pyval = PNone | PStr string | PFloat real | PDict "(string \<times> real) list"

type_synonym pydict = "(string \<times> pyval) list"

fun truthy :: "pyval \<Rightarrow> bool" where
  "truthy PNone = False"
| "truthy (PStr s) = (s \<noteq> [])"
| "truthy (PFloat x) = (x \<noteq> 0)"
| "truthy (PDict d) = (d \<noteq> [])"

definition getitem :: "pydict \<Rightarrow> string \<Rightarrow> error + pyval" where
  "getitem d k = (case map_of d k of None \<Rightarrow> Inl (KeyError k) | Some v \<Rightarrow> Inr v)"

definition setitem :: "pydict \<Rightarrow> string \<Rightarrow> pyval \<Rightarrow> pydict" where
  "setitem d k v = AList.update k v d"

definition get_or :: "'a \<Rightarrow> 'a option \<Rightarrow> 'a" where
  "get_or dflt x = (case x of None \<Rightarrow> dflt | Some v \<Rightarrow> v)"

text \<open>
  What the intent classifier and the entity recogniser hand back. A field read with
  \<open>.get(key, default)\<close> in \<open>extract_task\<close> is optional here; \<open>e["confidence"]\<close> is read
  without a default, so each entity has one.
\<close>

record classification_result =
  cls_label :: "string option"
  cls_confidence :: "real option"

record ner_entity =
  ent_entity :: "string option"
  ent_token :: "string option"
  ent_confidence :: real

record ner_result =
  ner_entities :: "ner_entity list option"

record extraction_result =
  task_info :: pydict
  valid :: bool
  err_msg :: string
  final_confidence :: real

section \<open>\<open>TaskExtractor\<close>\<close>

definition validate_task :: "pydict \<Rightarrow> real \<Rightarrow> bool \<times> string \<times> real" where
  "validate_task task_data threshold =
     (case find (\<lambda>f. f \<notin> fst ` set task_data)
             [''title'', ''description'', ''assignee'', ''deadline'', ''priority'', ''confidence_scores''] of
        Some f \<Rightarrow> (False, ''Missing required field: '' @ f, 0)
      | None \<Rightarrow>
         (case map_of task_data ''title'' of
            Some (PFloat _) \<Rightarrow> (False, ''Field 'title' must be a string or None.'', 0)
          | Some (PDict _) \<Rightarrow> (False, ''Field 'title' must be a string or None.'', 0)
          | _ \<Rightarrow>
             (case map_of task_data ''confidence_scores'' of
                Some (PDict scores) \<Rightarrow>
                  (let combined_conf = get_or 0 (map_of scores ''combined_confidence'') in
                   if combined_conf < 0 \<or> combined_conf > 1
                   then (False, ''combined_confidence score is out of valid range [0,1].'', combined_conf)
                   else if combined_conf < threshold
                   then (False, ''Final confidence below threshold.'', combined_conf)
                   else (True, [], combined_conf))
              | _ \<Rightarrow> (False, ''confidence_scores must be a dictionary.'', 0))))"

text \<open>
  One branch condition of the field mapping: \<open>NAME in label and not extracted_task[key]\<close>.
  The subscript is evaluated only when the label contains the name, and raises \<open>KeyError\<close>
  on a missing key.
\<close>

definition field_wanted :: "pydict \<Rightarrow> string \<Rightarrow> string \<Rightarrow> string \<Rightarrow> error + bool" where
  "field_wanted task name key label =
     (if py_in name label
      then (case getitem task key of Inl e \<Rightarrow> Inl e | Inr v \<Rightarrow> Inr (\<not> truthy v))
      else Inr False)"

definition map_entity :: "pydict \<Rightarrow> ner_entity \<Rightarrow> error + pydict" where
  "map_entity task ent =
     (let label = upper (get_or [] (ent_entity ent));
          token_val = get_or [] (ent_token ent)
      in case field_wanted task ''TITLE'' ''title'' label of
           Inl e \<Rightarrow> Inl e
         | Inr True \<Rightarrow> Inr (setitem task ''title'' (PStr token_val))
         | Inr False \<Rightarrow>
        (case field_wanted task ''ASSIGNEE'' ''assignee'' label of
           Inl e \<Rightarrow> Inl e
         | Inr True \<Rightarrow> Inr (setitem task ''assignee'' (PStr token_val))
         | Inr False \<Rightarrow>
        (case field_wanted task ''DEADLINE'' ''deadline'' label of
           Inl e \<Rightarrow> Inl e
         | Inr True \<Rightarrow> Inr (setitem task ''deadline'' (PStr token_val))
         | Inr False \<Rightarrow>
        (case field_wanted task ''PRIORITY'' ''priority'' label of
           Inl e \<Rightarrow> Inl e
         | Inr True \<Rightarrow> Inr (setitem task ''priority'' (PStr token_val))
         | Inr False \<Rightarrow> Inr task))))"

fun map_entities :: "pydict \<Rightarrow> ner_entity list \<Rightarrow> error + pydict" where
  "map_entities task [] = Inr task"
| "map_entities task (ent # ents) =
     (case map_entity task ent of Inl e \<Rightarrow> Inl e | Inr task' \<Rightarrow> map_entities task' ents)"

definition mean :: "real list \<Rightarrow> real" where
  "mean xs = sum_list xs / real (length xs)"

definition initial_task :: "real \<Rightarrow> real \<Rightarrow> real \<Rightarrow> pydict" where
  "initial_task intent_conf entity_conf combined_conf =
     [(''title'', PNone), (''description'', PNone), (''assignee'', PNone),
      (''deadline'', PNone), (''priority'', PNone),
      (''confidence_scores'',
         PDict [(''intent_confidence'', intent_conf), (''entity_confidence'', entity_conf),
                (''combined_confidence'', combined_conf)])]"

text \<open>
  Steps 5 to 7 of \<open>extract_task\<close>, from the two collaborator results to the result
  dictionary: confidence fusion, field mapping, the description, validation.
\<close>

definition build_result :: "classification_result \<Rightarrow> ner_result \<Rightarrow> real \<Rightarrow> error + extraction_result" where
  "build_result classification ner threshold =
     (let intent_conf = get_or 0 (cls_confidence classification);
          entities_list = get_or [] (ner_entities ner);
          entity_conf = (if entities_list \<noteq> [] then mean (map ent_confidence entities_list) else 0);
          combined_conf = (intent_conf + entity_conf) / 2;
          extracted_task = initial_task intent_conf entity_conf combined_conf
      in case map_entities extracted_task entities_list of
           Inl e \<Rightarrow> Inl e
         | Inr extracted_task \<Rightarrow>
        (case getitem extracted_task ''description'' of
           Inl e \<Rightarrow> Inl e
         | Inr d \<Rightarrow>
        (let classified_label = cls_label classification;
             extracted_task =
               (if \<not> truthy d then
                  (case classified_label of
                     None \<Rightarrow> setitem extracted_task ''description''
                               (PStr ''No distinct classification label'')
                   | Some l \<Rightarrow>
                       if l \<noteq> []
                       then setitem extracted_task ''description'' (PStr (''Classified intent: '' @ l))
                       else setitem extracted_task ''description''
                              (PStr ''No distinct classification label''))
                else extracted_task);
             (is_valid, msg, final_conf) = validate_task extracted_task threshold
         in Inr \<lparr>task_info = extracted_task, valid = is_valid, err_msg = msg,
                 final_confidence = final_conf\<rparr>)))"

text \<open>
  The extractor object: its cache, its two collaborators and its threshold. The
  collaborators are called with \<open>use_cache=False\<close>, so each is a function of the cleaned
  text and the threshold that returns a result or raises. Every entry of
  \<open>format_processors\<close> is \<open>{"cleanup": True}\<close>, so the unwanted characters are
  always the empty default.
\<close>

record 'v TaskExtractor =
  cache :: "(string, 'v) LRUCache"
  intent_classifier :: "string \<Rightarrow> real \<Rightarrow> error + classification_result"
  ner_model :: "string \<Rightarrow> real \<Rightarrow> error + ner_result"
  confidence_threshold :: real

datatype call = Classify string | ExtractEntities string

definition cache_key_of :: "string \<Rightarrow> string \<Rightarrow> string" where
  "cache_key_of format_type text = ''extract_task::'' @ format_type @ ''::'' @ text"

definition preprocessing_opts :: "string \<Rightarrow> clean_options" where
  "preprocessing_opts format_type =
     \<lparr>opt_lowercase = Some False, opt_unwanted_chars = Some [], opt_format_type = Some format_type\<rparr>"

text \<open>
  Steps 2 to 6b, with the collaborator calls in the order the code makes them. The list
  holds the calls that were made, with the text each was given.
\<close>

definition run_pipeline ::
  "'v TaskExtractor \<Rightarrow> string \<Rightarrow> string \<Rightarrow> call list \<times> (error + extraction_result)" where
  "run_pipeline self text format_type =
     (let cleaned_text = clean_text text (preprocessing_opts format_type) in
      case intent_classifier self cleaned_text (confidence_threshold self) of
        Inl e \<Rightarrow> ([Classify cleaned_text], Inl e)
      | Inr classification_result \<Rightarrow>
     (case ner_model self cleaned_text (confidence_threshold self) of
        Inl e \<Rightarrow> ([Classify cleaned_text, ExtractEntities cleaned_text], Inl e)
      | Inr ner_result \<Rightarrow>
          ([Classify cleaned_text, ExtractEntities cleaned_text],
           build_result classification_result ner_result (confidence_threshold self))))"

text \<open>
  \<open>extract_task\<close> returns the extractor with its cache as the call leaves it, the
  collaborator calls made, and the result or the exception.
\<close>

definition extract_task ::
  "extraction_result TaskExtractor \<Rightarrow> string \<Rightarrow> string \<Rightarrow> bool \<Rightarrow>
   extraction_result TaskExtractor \<times> call list \<times> (error + extraction_result)" where
  "extract_task self text format_type use_cache =
     (let cache_key = cache_key_of format_type text;
          (cached_result, cache1) =
             (if use_cache then LRUCache_get (cache self) cache_key else (None, cache self));
          self = self\<lparr>cache := cache1\<rparr>
      in case cached_result of
           Some r \<Rightarrow> (self, [], Inr r)
         | None \<Rightarrow>
        (case run_pipeline self text format_type of
           (calls, Inl e) \<Rightarrow> (self, calls, Inl e)
         | (calls, Inr result_data) \<Rightarrow>
             if use_cache then
               (case LRUCache_set (cache self) cache_key result_data of
                  Inl e \<Rightarrow> (self, calls, Inl e)
                | Inr cache2 \<Rightarrow> (self\<lparr>cache := cache2\<rparr>, calls, Inr result_data))
             else (self, calls, Inr result_data)))"

section \<open>Vocabulary of the properties\<close>

text \<open>
  The shape of the task dictionary that \<open>extract_task\<close> builds: the six keys, in the
  order of the literal.
\<close>

definition mk_task :: "pyval \<Rightarrow> pyval \<Rightarrow> pyval \<Rightarrow> pyval \<Rightarrow> pyval \<Rightarrow> pyval \<Rightarrow> pydict" where
  "mk_task t d a dl p cs =
     [(''title'', t), (''description'', d), (''assignee'', a), (''deadline'', dl),
      (''priority'', p), (''confidence_scores'', cs)]"

definition ent_label :: "ner_entity \<Rightarrow> string" where
  "ent_label ent = upper (get_or [] (ent_entity ent))"

definition ent_tok :: "ner_entity \<Rightarrow> string" where
  "ent_tok ent = get_or [] (ent_token ent)"

text \<open>
  First-match-wins as the specification words it: the field named \<open>name\<close> holds the
  token of the first entity, in recogniser order, whose upper-cased label contains
  \<open>name\<close>, and stays \<open>None\<close> when there is no such entity.
\<close>

definition first_match :: "string \<Rightarrow> ner_entity list \<Rightarrow> pyval" where
  "first_match name ents =
     (case find (\<lambda>e. py_in name (ent_label e)) ents of None \<Rightarrow> PNone | Some e \<Rightarrow> PStr (ent_tok e))"

definition field_names :: "string list" where
  "field_names = [''TITLE'', ''ASSIGNEE'', ''DEADLINE'', ''PRIORITY'']"

definition names_one_field :: "ner_entity \<Rightarrow> bool" where
  "names_one_field e \<longleftrightarrow> length (filter (\<lambda>n. py_in n (ent_label e)) field_names) \<le> 1"

definition unset_or_text :: "pyval \<Rightarrow> bool" where
  "unset_or_text v \<longleftrightarrow> (case v of PNone \<Rightarrow> True | PStr s \<Rightarrow> s \<noteq> [] | _ \<Rightarrow> False)"

definition clamp :: "real \<Rightarrow> real \<Rightarrow> real \<Rightarrow> real" where
  "clamp x lo hi = max lo (min hi x)"

definition combined_confidence_of :: "extraction_result \<Rightarrow> real option" where
  "combined_confidence_of r =
     (case map_of (task_info r) ''confidence_scores'' of
        Some (PDict scores) \<Rightarrow> map_of scores ''combined_confidence''
      | _ \<Rightarrow> None)"

definition fused_confidence :: "classification_result \<Rightarrow> ner_result \<Rightarrow> real" where
  "fused_confidence classification ner =
     (let confs = map ent_confidence (get_or [] (ner_entities ner))
      in (get_or 0 (cls_confidence classification) + (if confs = [] then 0 else mean confs)) / 2)"

text \<open>
  Which branch of the \<open>if\<close>/\<open>elif\<close> chain an entity takes, given the current values of
  the fields: a branch is taken when its name occurs in the label, its field is still
  falsy, and no earlier branch was taken.
\<close>

definition step_title :: "pyval \<Rightarrow> ner_entity \<Rightarrow> bool" where
  "step_title t e \<longleftrightarrow> py_in ''TITLE'' (ent_label e) \<and> \<not> truthy t"

definition step_assignee :: "pyval \<Rightarrow> pyval \<Rightarrow> ner_entity \<Rightarrow> bool" where
  "step_assignee t a e \<longleftrightarrow> \<not> step_title t e \<and> py_in ''ASSIGNEE'' (ent_label e) \<and> \<not> truthy a"

definition step_deadline :: "pyval \<Rightarrow> pyval \<Rightarrow> pyval \<Rightarrow> ner_entity \<Rightarrow> bool" where
  "step_deadline t a dl e \<longleftrightarrow>
     \<not> step_title t e \<and> \<not> step_assignee t a e \<and> py_in ''DEADLINE'' (ent_label e) \<and> \<not> truthy dl"

definition step_priority :: "pyval \<Rightarrow> pyval \<Rightarrow> pyval \<Rightarrow> pyval \<Rightarrow> ner_entity \<Rightarrow> bool" where
  "step_priority t a dl p e \<longleftrightarrow>
     \<not> step_title t e \<and> \<not> step_assignee t a e \<and> \<not> step_deadline t a dl e \<and>
     py_in ''PRIORITY'' (ent_label e) \<and> \<not> truthy p"

text \<open>A field that is still \<open>None\<close> takes the first match; any other value stays.\<close>

definition settle :: "pyval \<Rightarrow> string \<Rightarrow> ner_entity list \<Rightarrow> pyval" where
  "settle v name ents = (if v = PNone then first_match name ents else v)"

definition str_or_none :: "pyval \<Rightarrow> bool" where
  "str_or_none v \<longleftrightarrow> (case v of PNone \<Rightarrow> True | PStr s \<Rightarrow> True | _ \<Rightarrow> False)"

definition description_of :: "string option \<Rightarrow> string" where
  "description_of classified_label =
     (case classified_label of
        None \<Rightarrow> ''No distinct classification label''
      | Some l \<Rightarrow> if l \<noteq> [] then ''Classified intent: '' @ l else ''No distinct classification label'')"

definition scores_of :: "classification_result \<Rightarrow> ner_result \<Rightarrow> pyval" where
  "scores_of classification ner =
     (let entities_list = get_or [] (ner_entities ner);
          intent_conf = get_or 0 (cls_confidence classification);
          entity_conf = (if entities_list \<noteq> [] then mean (map ent_confidence entities_list) else 0)
      in PDict [(''intent_confidence'', intent_conf), (''entity_confidence'', entity_conf),
                (''combined_confidence'', (intent_conf + entity_conf) / 2)])"

text \<open>The outcome of \<open>validate_task\<close> when only its two confidence checks can fail.\<close>

definition confidence_verdict :: "real \<Rightarrow> real \<Rightarrow> bool \<times> string \<times> real" where
  "confidence_verdict c threshold =
     (if c < 0 \<or> c > 1 then (False, ''combined_confidence score is out of valid range [0,1].'', c)
      else if c < threshold then (False, ''Final confidence below threshold.'', c)
      else (True, [], c))"

text \<open>
  A result as the pipeline builds it: the six keys, text or \<open>None\<close> in the four mapped
  fields, a description, the three scores, and the verdict of the two confidence checks
  on the combined score.
\<close>

definition pipeline_result :: "real \<Rightarrow> extraction_result \<Rightarrow> bool" where
  "pipeline_result threshold r \<longleftrightarrow>
     (\<exists>t d a dl p ic ec c.
        task_info r = mk_task t (PStr d) a dl p
           (PDict [(''intent_confidence'', ic), (''entity_confidence'', ec), (''combined_confidence'', c)]) \<and>
        str_or_none t \<and> str_or_none a \<and> str_or_none dl \<and> str_or_none p \<and> d \<noteq> [] \<and>
        validate_task (task_info r) threshold = confidence_verdict c threshold \<and>
        (valid r, err_msg r, final_confidence r) = confidence_verdict c threshold \<and>
        (valid r \<longleftrightarrow> \<not> (c < 0 \<or> c > 1 \<or> c < threshold)))"

text \<open>Collaborators for the examples: fixed answers, whatever the text.\<close>

definition overconfident_classifier :: "string \<Rightarrow> real \<Rightarrow> error + classification_result" where
  "overconfident_classifier text threshold = Inr \<lparr>cls_label = Some ''TASK'', cls_confidence = Some 3\<rparr>"

definition sure_classifier :: "string \<Rightarrow> real \<Rightarrow> error + classification_result" where
  "sure_classifier text threshold = Inr \<lparr>cls_label = Some ''TASK'', cls_confidence = Some (9 / 10)\<rparr>"

definition silent_recognizer :: "string \<Rightarrow> real \<Rightarrow> error + ner_result" where
  "silent_recognizer text threshold = Inr \<lparr>ner_entities = Some []\<rparr>"

definition alice_friday :: "ner_entity list" where
  "alice_friday =
     [\<lparr>ent_entity = Some ''B-ASSIGNEE'', ent_token = Some ''Alice'', ent_confidence = 8 / 10\<rparr>,
      \<lparr>ent_entity = Some ''B-DEADLINE'', ent_token = Some ''Friday'', ent_confidence = 7 / 10\<rparr>,
      \<lparr>ent_entity = Some ''b-assignee'', ent_token = Some ''Bob'', ent_confidence = 6 / 10\<rparr>,
      \<lparr>ent_entity = Some ''B-PRIORITY'', ent_token = Some ''high'', ent_confidence = 9 / 10\<rparr>]"

definition alice_recognizer :: "string \<Rightarrow> real \<Rightarrow> error + ner_result" where
  "alice_recognizer text threshold = Inr \<lparr>ner_entities = Some alice_friday\<rparr>"

definition demo_extractor ::
  "(string \<Rightarrow> real \<Rightarrow> error + classification_result) \<Rightarrow> (string \<Rightarrow> real \<Rightarrow> error + ner_result) \<Rightarrow>
   'v TaskExtractor" where
  "demo_extractor classify recognize =
     \<lparr>cache = LRUCache_init 100, intent_classifier = classify, ner_model = recognize,
      confidence_threshold = 3 / 5\<rparr>"

definition alice_text :: string where
  "alice_text = ''Please create a task for Alice due Friday, high priority''"

definition alice_result :: extraction_result where
  "alice_result =
     \<lparr>task_info = mk_task PNone (PStr ''Classified intent: TASK'') (PStr ''Alice'') (PStr ''Friday'')
         (PStr ''high'')
         (PDict [(''intent_confidence'', 9 / 10), (''entity_confidence'', 3 / 4),
                 (''combined_confidence'', 33 / 40)]),
      valid = True, err_msg = [], final_confidence = 33 / 40\<rparr>"

text \<open>What the pipeline builds from the overconfident classifier and no entity.\<close>

definition overconfident_result :: extraction_result where
  "overconfident_result =
     \<lparr>task_info = mk_task PNone (PStr ''Classified intent: TASK'') PNone PNone PNone
         (PDict [(''intent_confidence'', 3), (''entity_confidence'', 0),
                 (''combined_confidence'', 3 / 2)]),
      valid = False, err_msg = ''combined_confidence score is out of valid range [0,1].'',
      final_confidence = 3 / 2\<rparr>"

section \<open>The collaborators' input checks\<close>

text \<open>
  \<open>BERTClassifier.classify\<close> and \<open>TaskNERModel.extract_entities\<close>, as \<open>extract_task\<close>
  calls them (\<open>use_cache=False\<close>, so neither reads nor writes its own cache). What lies
  behind the input checks (tokeniser, encoder, softmax, label maps) is a parameter:
  \<open>bert_model\<close> gives the predicted label and its probability for a cleaned text,
  \<open>ner\<close> the entities that pass the threshold; both may raise.
\<close>

definition minimal_clean_options :: clean_options where
  "minimal_clean_options = \<lparr>opt_lowercase = Some False, opt_unwanted_chars = None, opt_format_type = None\<rparr>"

definition BERTClassifier_preprocess :: "string \<Rightarrow> error + string" where
  "BERTClassifier_preprocess text =
     (if strip text = [] then Inl (ValueError ''Cannot preprocess an empty string.'')
      else if length text < 3
      then Inl (ValueError ''Text is too short to be processed by the BERT classifier.'')
      else Inr (clean_text text minimal_clean_options))"

definition BERTClassifier_classify ::
  "(string \<Rightarrow> error + string \<times> real) \<Rightarrow> string \<Rightarrow> real \<Rightarrow> error + classification_result" where
  "BERTClassifier_classify bert_model text threshold =
     (if strip text = []
      then Inl (ValueError ''Text must be a non-empty string for classification.'')
      else if \<not> (0 < threshold \<and> threshold \<le> 1)
      then Inl (ValueError ''confidence_threshold must be between 0 and 1.'')
      else case BERTClassifier_preprocess text of
             Inl e \<Rightarrow> Inl e
           | Inr cleaned_text \<Rightarrow>
          (case bert_model cleaned_text of
             Inl e \<Rightarrow> Inl e
           | Inr (predicted_label, max_confidence) \<Rightarrow>
               Inr \<lparr>cls_label = (if max_confidence \<ge> threshold
                                  then Some predicted_label else None),
                    cls_confidence = Some max_confidence\<rparr>))"

definition TaskNERModel_extract_entities ::
  "(string \<Rightarrow> real \<Rightarrow> error + ner_entity list) \<Rightarrow> string \<Rightarrow> real \<Rightarrow> error + ner_result" where
  "TaskNERModel_extract_entities ner text threshold =
     (if length (strip text) = 0 then Inr \<lparr>ner_entities = Some []\<rparr>
      else case ner (clean_text text minimal_clean_options) threshold of
             Inl e \<Rightarrow> Inl e
           | Inr processed_predictions \<Rightarrow> Inr \<lparr>ner_entities = Some processed_predictions\<rparr>)"

text \<open>The extractor as \<open>TaskExtractor.__init__\<close> builds it, around the two models.\<close>

definition TaskExtractor_init ::
  "(string \<Rightarrow> error + string \<times> real) \<Rightarrow> (string \<Rightarrow> real \<Rightarrow> error + ner_entity list) \<Rightarrow>
   real \<Rightarrow> int \<Rightarrow> 'v TaskExtractor" where
  "TaskExtractor_init bert_model ner threshold cache_size =
     \<lparr>cache = LRUCache_init cache_size,
      intent_classifier = BERTClassifier_classify bert_model,
      ner_model = TaskNERModel_extract_entities ner,
      confidence_threshold = threshold\<rparr>"

definition blank :: "string \<Rightarrow> bool" where
  "blank text \<longleftrightarrow> list_all is_space text"

text \<open>Models for the examples: one label with probability 0.9, no entity.\<close>

definition demo_bert :: "string \<Rightarrow> error + string \<times> real" where
  "demo_bert cleaned_text = Inr (''TASK'', 9 / 10)"

definition demo_ner :: "string \<Rightarrow> real \<Rightarrow> error + ner_entity list" where
  "demo_ner cleaned_text threshold = Inr []"

section \<open>Result dictionaries as objects\<close>

text \<open>
  Python hands dictionaries around by reference. Here the result dictionaries live in a
  store, a list indexed by address; the cache holds addresses and \<open>extract_task\<close> returns
  one. The steps are those of \<open>extract_task\<close>: the dictionary built by a computing call is
  a new object, \<open>self.cache.set(cache_key, result_data)\<close> stores its address, and
  \<open>return result_data\<close> returns the same address; on a hit \<open>return cached_result\<close>
  returns the address found in the cache. What a caller does to a returned dictionary is
  an update of the store at that address.
\<close>

definition extract_task_obj ::
  "nat TaskExtractor \<Rightarrow> extraction_result list \<Rightarrow> string \<Rightarrow> string \<Rightarrow> bool \<Rightarrow>
   nat TaskExtractor \<times> extraction_result list \<times> call list \<times> (error + nat)" where
  "extract_task_obj self store text format_type use_cache =
     (let cache_key = cache_key_of format_type text;
          (cached_result, cache1) =
             (if use_cache then LRUCache_get (cache self) cache_key else (None, cache self));
          self = self\<lparr>cache := cache1\<rparr>
      in case cached_result of
           Some addr \<Rightarrow> (self, store, [], Inr addr)
         | None \<Rightarrow>
        (case run_pipeline self text format_type of
           (calls, Inl e) \<Rightarrow> (self, store, calls, Inl e)
         | (calls, Inr result_data) \<Rightarrow>
             (let addr = length store; store = store @ [result_data] in
              if use_cache then
                (case LRUCache_set (cache self) cache_key addr of
                   Inl e \<Rightarrow> (self, store, calls, Inl e)
                 | Inr cache2 \<Rightarrow> (self\<lparr>cache := cache2\<rparr>, store, calls, Inr addr))
              else (self, store, calls, Inr addr))))"

definition cached_objects_exist :: "nat TaskExtractor \<Rightarrow> extraction_result list \<Rightarrow> bool" where
  "cached_objects_exist self store \<longleftrightarrow> list_all (\<lambda>(k, addr). addr < length store) (cache_map (cache self))"

section \<open>\<open>TaskExtractor.batch_extract_tasks\<close>\<close>

text \<open>
  \<open>extract_item\<close> stands for \<open>self.extract_task(txt, format_type, use_cache)\<close> on one
  text: the result or the exception of that call. The worker threads share the cache
  without any lock; how their cache operations interleave is outside this model, which
  takes each item's outcome as given. The order in which the futures complete is the
  list \<open>completion\<close> of chunk numbers, in the order \<open>as_completed\<close> yields them.
\<close>

definition chunker :: "'a list \<Rightarrow> nat \<Rightarrow> (nat \<times> 'a list) list" where
  "chunker seq sz =
     map (\<lambda>k. (k * sz, take sz (drop (k * sz) seq))) [0..<(length seq + sz - 1) div sz]"

text \<open>
  The loop of \<open>batch_worker\<close> over \<open>enumerate(chunk_texts)\<close>: an exception of one item
  leaves the loop and the worker, and the rest of the chunk is not processed.
\<close>

fun batch_worker_loop ::
  "(string \<Rightarrow> error + 'r) \<Rightarrow> nat \<Rightarrow> (nat \<times> string) list \<Rightarrow> error + (nat \<times> 'r) list" where
  "batch_worker_loop extract_item start_idx [] = Inr []"
| "batch_worker_loop extract_item start_idx ((i, txt) # rest) =
     (case extract_item txt of
        Inl e \<Rightarrow> Inl e
      | Inr res \<Rightarrow>
          (case batch_worker_loop extract_item start_idx rest of
             Inl e \<Rightarrow> Inl e
           | Inr chunk_results \<Rightarrow> Inr ((start_idx + i, res) # chunk_results)))"

definition batch_worker ::
  "(string \<Rightarrow> error + 'r) \<Rightarrow> nat \<Rightarrow> string list \<Rightarrow> error + (nat \<times> 'r) list" where
  "batch_worker extract_item start_idx chunk_texts =
     batch_worker_loop extract_item start_idx (List.enumerate 0 chunk_texts)"

text \<open>
  \<open>for future in as_completed(tasks): partial_results.extend(future.result())\<close>:
  \<open>future.result()\<close> raises the exception of a failed worker again.
\<close>

fun gather_completed :: "(error + (nat \<times> 'r) list) list \<Rightarrow> error + (nat \<times> 'r) list" where
  "gather_completed [] = Inr []"
| "gather_completed (future # futures) =
     (case future of
        Inl e \<Rightarrow> Inl e
      | Inr chunk_out \<Rightarrow>
          (case gather_completed futures of
             Inl e \<Rightarrow> Inl e
           | Inr partial_results \<Rightarrow> Inr (chunk_out @ partial_results)))"

definition partial_results_of ::
  "(string \<Rightarrow> error + 'r) \<Rightarrow> nat list \<Rightarrow> string list \<Rightarrow> nat \<Rightarrow> error + (nat \<times> 'r) list" where
  "partial_results_of extract_item completion texts sz =
     (let tasks = map (\<lambda>(start_idx, chunk_texts). batch_worker extract_item start_idx chunk_texts)
                    (chunker texts sz)
      in gather_completed (map (\<lambda>k. tasks ! k) completion))"

text \<open>
  \<open>for idx, data in partial_results: results[idx] = data\<close>, on the list of
  \<open>None\<close> allocated before the workers start.
\<close>

definition fill_results :: "'r option list \<Rightarrow> (nat \<times> 'r) list \<Rightarrow> 'r option list" where
  "fill_results results partial_results =
     foldl (\<lambda>res (idx, data). res[idx := Some data]) results partial_results"

definition batch_extract_tasks ::
  "(string \<Rightarrow> error + 'r) \<Rightarrow> nat list \<Rightarrow> string list \<Rightarrow> int \<Rightarrow> error + 'r option list" where
  "batch_extract_tasks extract_item completion texts batch_size =
     (if batch_size \<le> 0 then Inl (ValueError ''Parameter 'batch_size' must be a positive integer.'')
      else case partial_results_of extract_item completion texts (nat batch_size) of
             Inl e \<Rightarrow> Inl e
           | Inr partial_results \<Rightarrow>
               Inr (fill_results (replicate (length texts) None) partial_results))"

text \<open>A completion order names every chunk once.\<close>

definition completion_order :: "nat list \<Rightarrow> 'a list \<Rightarrow> nat \<Rightarrow> bool" where
  "completion_order completion texts sz \<longleftrightarrow>
     distinct completion \<and> set completion = {..<length (chunker texts sz)}"

text \<open>
  One item of a batch run with \<open>use_cache=False\<close>: the outcome of \<open>extract_task\<close> on the
  text, which then depends on the text alone.
\<close>

definition uncached_item ::
  "extraction_result TaskExtractor \<Rightarrow> string \<Rightarrow> string \<Rightarrow> error + extraction_result" where
  "uncached_item self format_type t = snd (snd (extract_task self t format_type False))"

text \<open>
  For the examples: a classifier model that answers with the cleaned text as its label,
  so that the result of an item shows which text it came from.
\<close>

definition echo_bert :: "string \<Rightarrow> error + string \<times> real" where
  "echo_bert cleaned_text = Inr (cleaned_text, 9 / 10)"

definition echo_result :: "string \<Rightarrow> extraction_result" where
  "echo_result t =
     \<lparr>task_info = mk_task PNone (PStr (''Classified intent: '' @ t)) PNone PNone PNone
         (PDict [(''intent_confidence'', 9 / 10), (''entity_confidence'', 0),
                 (''combined_confidence'', 9 / 20)]),
      valid = False, err_msg = ''Final confidence below threshold.'', final_confidence = 9 / 20\<rparr>"

definition echo_extractor :: "extraction_result TaskExtractor" where
  "echo_extractor = TaskExtractor_init echo_bert demo_ner (3 / 5) 100"

section \<open>\<open>CommunicationProcessor\<close>\<close>

text \<open>
  The processor with its three pipelines, its thresholds and its retry settings (each
  read with \<open>.get(key, default)\<close>, so each may be absent). A pipeline call can fail on
  one attempt and succeed on the next, so each pipeline is given as its outcome for an
  attempt number and the arguments of the call.
\<close>

record ('p, 'e) comm_bundle =
  processed_text_output :: 'p
  entity_result :: 'e
  task_extraction :: extraction_result

record ('p, 'e) CommunicationProcessor =
  text_processor :: "int \<Rightarrow> string \<Rightarrow> error + 'p"
  entity_extractor :: "int \<Rightarrow> string \<Rightarrow> string \<Rightarrow> real \<Rightarrow> error + 'e"
  task_extractor :: "int \<Rightarrow> string \<Rightarrow> string \<Rightarrow> bool \<Rightarrow> error + extraction_result"
  entity_confidence :: "real option"
  task_confidence :: "real option"
  max_attempts :: "int option"
  backoff_factor :: "real option"

record processing_options =
  use_task_cache :: "bool option"

text \<open>
  What a call leaves behind besides its result: the warnings and errors it logs and the
  delays it waits.
\<close>

datatype effect =
    LogLowConfidence real real
  | LogAttemptError int int string
  | Sleep real
  | LogFailure string

text \<open>The body of the \<open>try\<close> block, steps (4) to (9), for one attempt.\<close>

definition run_attempt ::
  "('p, 'e) CommunicationProcessor \<Rightarrow> int \<Rightarrow> string \<Rightarrow> string \<Rightarrow> processing_options \<Rightarrow>
   effect list \<times> (error + ('p, 'e) comm_bundle)" where
  "run_attempt self attempt text channel_type options =
     (case text_processor self attempt text of
        Inl e \<Rightarrow> ([], Inl e)
      | Inr processed \<Rightarrow>
     (let entity_conf_threshold = get_or (1 / 2) (entity_confidence self);
          channel_type_for_entities = (if channel_type \<noteq> [] then channel_type else ''default'')
      in case entity_extractor self attempt text channel_type_for_entities entity_conf_threshold of
           Inl e \<Rightarrow> ([], Inl e)
         | Inr entities \<Rightarrow>
     (let task_conf_threshold = get_or (6 / 10) (task_confidence self)
      in case task_extractor self attempt text channel_type_for_entities
                (get_or True (use_task_cache options)) of
           Inl e \<Rightarrow> ([], Inl e)
         | Inr extract_result \<Rightarrow>
             (let processed_conf = final_confidence extract_result;
                  threshold = max entity_conf_threshold task_conf_threshold
              in (if processed_conf < threshold then [LogLowConfidence processed_conf threshold] else [],
                  Inr \<lparr>processed_text_output = processed, entity_result = entities,
                       task_extraction = extract_result\<rparr>)))))"

definition failure_message :: "int \<Rightarrow> error option \<Rightarrow> string" where
  "failure_message attempts last_error =
     ''Failed to process communication after '' @ str_int attempts @ '' attempts: '' @
     (case last_error of Some e \<Rightarrow> str_of_error e | None \<Rightarrow> ''Unknown error'')"

text \<open>
  The \<open>while attempt < max_attempts\<close> loop. The delay is
  \<open>asyncio.run(asyncio.sleep(backoff_factor * attempt))\<close>: called from synchronous code it
  waits; called while an event loop is running in the thread, as it is under
  \<open>batch_process\<close>, \<open>asyncio.run\<close> raises \<open>RuntimeError\<close> instead, from inside the
  \<open>except\<close> block, and that exception leaves \<open>process_communication\<close>.
\<close>

function attempt_loop ::
  "('p, 'e) CommunicationProcessor \<Rightarrow> bool \<Rightarrow> string \<Rightarrow> string \<Rightarrow> processing_options \<Rightarrow>
   int \<Rightarrow> error option \<Rightarrow> effect list \<Rightarrow> effect list \<times> (error + ('p, 'e) comm_bundle)" where
  "attempt_loop self in_event_loop text channel_type options attempt last_error trace =
     (let max_att = get_or 1 (max_attempts self); backoff = get_or 0 (backoff_factor self) in
      if attempt < max_att then
        (let attempt = attempt + 1 in
         case run_attempt self attempt text channel_type options of
           (warnings, Inr result) \<Rightarrow> (trace @ warnings, Inr result)
         | (warnings, Inl e) \<Rightarrow>
             (let trace = trace @ warnings @ [LogAttemptError attempt max_att (str_of_error e)] in
              if attempt < max_att \<and> backoff > 0 then
                (if in_event_loop
                 then (trace, Inl (RuntimeError ''asyncio.run() cannot be called from a running event loop''))
                 else attempt_loop self in_event_loop text channel_type options attempt (Some e)
                        (trace @ [Sleep (backoff * real_of_int attempt)]))
              else attempt_loop self in_event_loop text channel_type options attempt (Some e) trace))
      else (trace @ [LogFailure (failure_message max_att last_error)],
            Inl (RuntimeError (failure_message max_att last_error))))"
  by pat_completeness auto
termination
  by (relation "measure (\<lambda>(self, in_event_loop, text, channel_type, options, attempt, last_error, trace).
        nat (get_or 1 (max_attempts self) - attempt))") auto

declare attempt_loop.simps [simp del]

definition process_communication ::
  "('p, 'e) CommunicationProcessor \<Rightarrow> bool \<Rightarrow> string \<Rightarrow> string \<Rightarrow> processing_options \<Rightarrow>
   effect list \<times> (error + ('p, 'e) comm_bundle)" where
  "process_communication self in_event_loop text channel_type options =
     (if strip text = []
      then ([], Inl (ValueError ''process_communication requires a non-empty text string.''))
      else if strip channel_type = []
      then ([], Inl (ValueError ''process_communication requires a valid channel_type string.''))
      else attempt_loop self in_event_loop text channel_type options 0 None [])"

text \<open>
  \<open>batch_process\<close>. Each item runs \<open>process_communication\<close> inside the event loop of its
  chunk, and \<open>process_one_item\<close> turns an exception of the item into an error marker.
  \<open>asyncio.gather\<close> returns the items of a chunk in their order, and every item
  is written at its own index of the pre-allocated list.
\<close>

datatype ('p, 'e) batch_entry = Processed "('p, 'e) comm_bundle" | ErrorMarker string

definition process_one_item ::
  "('p, 'e) CommunicationProcessor \<Rightarrow> nat \<Rightarrow> string \<Rightarrow> string \<Rightarrow> processing_options \<Rightarrow>
   nat \<times> ('p, 'e) batch_entry" where
  "process_one_item self idx text channel options =
     (case snd (process_communication self True text channel options) of
        Inr ret \<Rightarrow> (idx, Processed ret)
      | Inl e \<Rightarrow> (idx, ErrorMarker (str_of_error e)))"

definition process_chunk_maps ::
  "('p, 'e) CommunicationProcessor \<Rightarrow> nat \<Rightarrow> string list \<Rightarrow> string \<Rightarrow> processing_options \<Rightarrow>
   (nat \<times> ('p, 'e) batch_entry) list" where
  "process_chunk_maps self start_idx chunk_texts channel options =
     map (\<lambda>(i, t). process_one_item self (start_idx + i) t channel options)
       (List.enumerate 0 chunk_texts)"

definition batch_process ::
  "('p, 'e) CommunicationProcessor \<Rightarrow> string list \<Rightarrow> string \<Rightarrow> int \<Rightarrow> processing_options \<Rightarrow>
   error + ('p, 'e) batch_entry option list" where
  "batch_process self texts channel_type batch_size options =
     (if strip channel_type = [] then Inl (ValueError ''Invalid channel_type for batch processing.'')
      else if batch_size \<le> 0 then Inl (ValueError ''batch_size must be a positive integer.'')
      else
        (let effective_batch_size = min batch_size (max (int (length texts)) 1);
             results = replicate (length texts) None
         in Inr (foldl (\<lambda>results (start_idx, chunk_texts).
                     fill_results results
                       (process_chunk_maps self start_idx chunk_texts channel_type options))
                   results (chunker texts (nat effective_batch_size)))))"

section \<open>Vocabulary of the retry properties\<close>

definition delays :: "effect list \<Rightarrow> real list" where
  "delays trace = concat (map (\<lambda>ev. case ev of Sleep d \<Rightarrow> [d] | _ \<Rightarrow> []) trace)"

definition attempt_errors :: "effect list \<Rightarrow> (int \<times> string) list" where
  "attempt_errors trace =
     concat (map (\<lambda>ev. case ev of LogAttemptError j m msg \<Rightarrow> [(j, msg)] | _ \<Rightarrow> []) trace)"

text \<open>
  What the loop logs and waits for the failed attempts \<open>a + 1\<close> to \<open>k\<close>, when it is
  called from synchronous code.
\<close>

definition fail_trace ::
  "('p, 'e) CommunicationProcessor \<Rightarrow> string \<Rightarrow> string \<Rightarrow> processing_options \<Rightarrow> int \<Rightarrow> int \<Rightarrow>
   effect list" where
  "fail_trace self text channel_type options a k =
     concat (map (\<lambda>j.
        LogAttemptError j (get_or 1 (max_attempts self))
          (str_of_error (projl (snd (run_attempt self j text channel_type options)))) #
        (if j < get_or 1 (max_attempts self) \<and> get_or 0 (backoff_factor self) > 0
         then [Sleep (get_or 0 (backoff_factor self) * real_of_int j)] else []))
       [a + 1..k])"

definition attempt_fails ::
  "('p, 'e) CommunicationProcessor \<Rightarrow> string \<Rightarrow> string \<Rightarrow> processing_options \<Rightarrow> int \<Rightarrow> bool" where
  "attempt_fails self text channel_type options j \<longleftrightarrow>
     (\<exists>e. snd (run_attempt self j text channel_type options) = Inl e)"

text \<open>
  Processors for the examples. The task extractor of the first fails on attempts 1 and 2
  and then answers as \<open>echo_extractor\<close> does without its cache; the one of the second
  always fails.
\<close>

definition plain_text_processor :: "int \<Rightarrow> string \<Rightarrow> error + string" where
  "plain_text_processor attempt text = Inr (strip text)"

definition no_entity_extractor :: "int \<Rightarrow> string \<Rightarrow> string \<Rightarrow> real \<Rightarrow> error + string list" where
  "no_entity_extractor attempt text channel threshold = Inr []"

definition flaky_task_extractor :: "int \<Rightarrow> string \<Rightarrow> string \<Rightarrow> bool \<Rightarrow> error + extraction_result" where
  "flaky_task_extractor attempt text channel use_cache =
     (if attempt < 3 then Inl (RuntimeError ''model inference failed'')
      else uncached_item echo_extractor channel text)"

definition broken_task_extractor :: "int \<Rightarrow> string \<Rightarrow> string \<Rightarrow> bool \<Rightarrow> error + extraction_result" where
  "broken_task_extractor attempt text channel use_cache = Inl (RuntimeError ''model inference failed'')"

definition steady_task_extractor :: "int \<Rightarrow> string \<Rightarrow> string \<Rightarrow> bool \<Rightarrow> error + extraction_result" where
  "steady_task_extractor attempt text channel use_cache = uncached_item echo_extractor channel text"

definition demo_processor ::
  "(int \<Rightarrow> string \<Rightarrow> string \<Rightarrow> bool \<Rightarrow> error + extraction_result) \<Rightarrow> int \<Rightarrow>
   (string, string list) CommunicationProcessor" where
  "demo_processor extractor attempts =
     \<lparr>text_processor = plain_text_processor, entity_extractor = no_entity_extractor,
      task_extractor = extractor, entity_confidence = None, task_confidence = None,
      max_attempts = Some attempts, backoff_factor = Some (1 / 10)\<rparr>"

definition echo_bundle :: "string \<Rightarrow> (string, string list) comm_bundle" where
  "echo_bundle t =
     \<lparr>processed_text_output = t, entity_result = [], task_extraction = echo_result t\<rparr>"

definition no_options :: processing_options where
  "no_options = \<lparr>use_task_cache = None\<rparr>"

text \<open>The entry that \<open>process_one_item\<close> produces for a text: the bundle or the error marker.\<close>

definition entry_of ::
  "('p, 'e) CommunicationProcessor \<Rightarrow> string \<Rightarrow> processing_options \<Rightarrow> string \<Rightarrow> ('p, 'e) batch_entry" where
  "entry_of self channel options t = snd (process_one_item self 0 t channel options)"



section \<open>Properties of the LRU cache\<close>

lemma length_delete_le: "length (AList.delete k xs) \<le> length xs"
  by (simp add: AList.delete_eq)

lemma length_delete_present:
  "k \<in> fst ` set xs \<Longrightarrow> Suc (length (AList.delete k xs)) \<le> length xs"
proof (induction xs)
  case Nil then show ?case by simp
next
  case (Cons a xs)
  show ?case
  proof (cases "fst a = k")
    case True
    with length_delete_le [of k xs] show ?thesis by (cases a) simp
  next
    case False
    with Cons show ?thesis by (cases a) auto
  qed
qed

lemma capacity_apply_cache_op [simp]: "capacity (apply_cache_op c op) = capacity c"
  by (cases op) (auto simp: LRUCache_get_def LRUCache_set_def split: option.splits list.splits)

lemma size_apply_cache_op:
  assumes "int (length (cache_map c)) \<le> capacity c"
  shows "int (length (cache_map (apply_cache_op c op))) \<le> capacity c"
proof (cases op)
  case (Get k)
  show ?thesis
  proof (cases "map_of (cache_map c) k")
    case None
    with Get assms show ?thesis by (simp add: LRUCache_get_def)
  next
    case (Some v)
    then have "k \<in> fst ` set (cache_map c)" by (metis map_of_eq_None_iff option.distinct(1))
    from length_delete_present [OF this] Get Some assms show ?thesis
      by (simp add: LRUCache_get_def)
  qed
next
  case (Set k v)
  show ?thesis
  proof (cases "k \<in> fst ` set (cache_map c)")
    case True
    from length_delete_present [OF this] True Set assms show ?thesis
      by (simp add: LRUCache_set_def)
  next
    case False
    with Set assms show ?thesis
      by (cases "cache_map c") (auto simp: LRUCache_set_def)
  qed
qed

lemma capacity_run_cache_ops [simp]: "capacity (run_cache_ops c ops) = capacity c"
  unfolding run_cache_ops_def by (induction ops arbitrary: c) auto

lemma size_run_cache_ops:
  "int (length (cache_map c)) \<le> capacity c \<Longrightarrow>
   int (length (cache_map (run_cache_ops c ops))) \<le> capacity c"
  unfolding run_cache_ops_def
proof (induction ops arbitrary: c)
  case Nil then show ?case by simp
next
  case (Cons a ops)
  from size_apply_cache_op [OF Cons.prems, of a] have "int (length (cache_map (apply_cache_op c a))) \<le> capacity (apply_cache_op c a)"
    by simp
  from Cons.IH [OF this] show ?case by simp
qed

lemma LRUCache_set_ok:
  "0 < capacity c \<Longrightarrow> \<exists>c'. LRUCache_set c k v = Inr c'"
  by (cases "cache_map c") (auto simp: LRUCache_set_def)

lemma distinct_delete_keys: "distinct (map fst xs) \<Longrightarrow> distinct (map fst (AList.delete k xs))"
  by (simp add: distinct_delete)

lemma keys_delete: "map fst (AList.delete k xs) = removeAll k (map fst xs)"
  by (induction xs) auto

lemma distinct_apply_cache_op:
  "distinct (cache_keys c) \<Longrightarrow> distinct (cache_keys (apply_cache_op c op))"
  apply (cases op)
  apply (auto simp: cache_keys_def LRUCache_get_def LRUCache_set_def keys_delete distinct_removeAll
       split: option.splits list.splits)
  done

lemma insert_distinct_fresh:
  assumes "0 < cap" "distinct (map fst kvs)"
  shows "cache_map (run_cache_ops (LRUCache_init cap) (map (\<lambda>(k, v). Set k v) kvs))
         = drop (length kvs - nat cap) kvs"
  using assms(2)
proof (induction kvs rule: rev_induct)
  case Nil
  then show ?case by (simp add: run_cache_ops_def LRUCache_init_def)
next
  case (snoc x xs)
  obtain k v where x: "x = (k, v)" by (cases x)
  let ?c = "run_cache_ops (LRUCache_init cap) (map (\<lambda>(k, v). Set k v) xs)"
  have IH: "cache_map ?c = drop (length xs - nat cap) xs" using snoc by simp
  have capc: "capacity ?c = cap" by (simp add: LRUCache_init_def)
  have notin: "k \<notin> fst ` set (cache_map ?c)"
    using snoc.prems x IH by (auto dest!: in_set_dropD)
  have step: "run_cache_ops (LRUCache_init cap) (map (\<lambda>(k, v). Set k v) (xs @ [x]))
        = apply_cache_op ?c (Set k v)"
    by (simp add: run_cache_ops_def x)
  show ?case
  proof (cases "int (length xs) < cap")
    case True
    then have "length xs - nat cap = 0" "Suc (length xs) - nat cap = 0" by linarith+
    with True notin IH capc step x show ?thesis
      by (simp add: LRUCache_set_def)
  next
    case False
    then have ge: "nat cap \<le> length xs" by linarith
    from assms(1) ge have pos: "length xs - nat cap < length xs" by linarith
    then have ne: "drop (length xs - nat cap) xs \<noteq> []" by simp
    have tl_eq: "tl (drop (length xs - nat cap) xs) = drop (Suc (length xs) - nat cap) xs"
      using ge by (simp add: drop_Suc Suc_diff_le tl_drop)
    have full: "int (length (cache_map ?c)) \<ge> capacity ?c"
      using IH capc ge assms(1) by simp
    have "cache_map ?c \<noteq> []" using ne IH by simp
    then obtain y rest where yr: "cache_map ?c = y # rest"
      by (meson neq_Nil_conv)
    then have rest: "rest = drop (Suc (length xs) - nat cap) xs"
      using tl_eq IH by (metis list.sel(3))
    have "LRUCache_set ?c k v = Inr (?c\<lparr>cache_map := rest @ [(k, v)]\<rparr>)"
      using notin full yr by (simp add: LRUCache_set_def)
    then have "cache_map (apply_cache_op ?c (Set k v)) = rest @ [(k, v)]" by simp
    moreover have "drop (length (xs @ [x]) - nat cap) (xs @ [x]) = rest @ [(k, v)]"
      using rest ge x assms(1) by (simp add: Suc_diff_le)
    ultimately show ?thesis using step by simp
  qed
qed

lemma touch_preserves:
  assumes "\<forall>x \<in> set ks. f x < t" and "set ks' \<subseteq> set ks - {k}"
    and "sorted_wrt (\<lambda>a b. f a < f b) ks'" and "distinct ks'"
  shows "distinct (ks' @ [k]) \<and>
         sorted_wrt (\<lambda>a b. (f(k := t)) a < (f(k := t)) b) (ks' @ [k]) \<and>
         (\<forall>x \<in> set (ks' @ [k]). (f(k := t)) x < Suc t)"
proof -
  have nk: "k \<notin> set ks'" using assms(2) by auto
  have same: "\<And>x. x \<in> set ks' \<Longrightarrow> (f(k := t)) x = f x" using nk by auto
  have "sorted_wrt (\<lambda>a b. (f(k := t)) a < (f(k := t)) b) ks'"
  proof (rule sorted_wrt_mono_rel [OF _ assms(3)])
    fix x y assume "x \<in> set ks'" "y \<in> set ks'" "f x < f y"
    then show "(f(k := t)) x < (f(k := t)) y" using same by simp
  qed
  moreover have "\<forall>x \<in> set ks'. (f(k := t)) x < (f(k := t)) k"
    using assms(1,2) nk by auto
  moreover have "\<forall>x \<in> set (ks' @ [k]). (f(k := t)) x < Suc t"
    using assms(1,2) by (auto simp: less_Suc_eq)
  ultimately show ?thesis using nk assms(4) by (simp add: sorted_wrt_append)
qed

lemma sorted_wrt_removeAll: "sorted_wrt P xs \<Longrightarrow> sorted_wrt P (removeAll k xs)"
  by (induction xs) auto

lemma sorted_wrt_tl: "sorted_wrt P xs \<Longrightarrow> sorted_wrt P (tl xs)"
  by (cases xs) auto

lemma recency_touch:
  assumes "recency_ordered s" and "set ks' \<subseteq> set (cache_keys (st_cache s)) - {k}"
    and "sorted_wrt (\<lambda>a b. last_use s a < last_use s b) ks'" and "distinct ks'"
    and "cache_keys c' = ks' @ [k]"
  shows "recency_ordered \<lparr>st_cache = c', last_use = (last_use s)(k := clock s), clock = Suc (clock s)\<rparr>"
proof -
  have bd: "\<forall>x \<in> set (cache_keys (st_cache s)). last_use s x < clock s"
    using assms(1) by (simp add: recency_ordered_def)
  from touch_preserves [OF bd assms(2) assms(3) assms(4)] assms(5)
  show ?thesis unfolding recency_ordered_def by simp
qed

lemma recency_ordered_step:
  assumes "recency_ordered s"
  shows "recency_ordered (stamped_op s op)"
proof -
  let ?ks = "cache_keys (st_cache s)"
  let ?P = "\<lambda>a b. last_use s a < last_use s b"
  have d: "distinct ?ks" and so: "sorted_wrt ?P ?ks"
    using assms by (auto simp: recency_ordered_def)
  have weaker: "recency_ordered \<lparr>st_cache = st_cache s, last_use = last_use s, clock = Suc (clock s)\<rparr>"
    using assms by (auto simp: recency_ordered_def less_Suc_eq)
  have rem: "recency_ordered \<lparr>st_cache = (st_cache s)\<lparr>cache_map := AList.delete k (cache_map (st_cache s)) @ [(k, v)]\<rparr>,
        last_use = (last_use s)(k := clock s), clock = Suc (clock s)\<rparr>" for k v
  proof (rule recency_touch [OF assms, where ks' = "removeAll k ?ks"])
    show "set (removeAll k ?ks) \<subseteq> set ?ks - {k}" by auto
    show "sorted_wrt ?P (removeAll k ?ks)" using so by (rule sorted_wrt_removeAll)
    show "distinct (removeAll k ?ks)" using d by (simp add: distinct_removeAll)
    show "cache_keys ((st_cache s)\<lparr>cache_map := AList.delete k (cache_map (st_cache s)) @ [(k, v)]\<rparr>)
          = removeAll k ?ks @ [k]"
      by (simp add: cache_keys_def keys_delete)
  qed
  show ?thesis
  proof (cases op)
    case (Get k)
    show ?thesis
    proof (cases "map_of (cache_map (st_cache s)) k")
      case None
      with Get weaker show ?thesis by (simp add: LRUCache_get_def)
    next
      case (Some v)
      with Get rem [of k v] show ?thesis by (simp add: LRUCache_get_def)
    qed
  next
    case (Set k v)
    show ?thesis
    proof (cases "k \<in> fst ` set (cache_map (st_cache s))")
      case True
      with Set rem [of k v] show ?thesis by (simp add: LRUCache_set_def)
    next
      case False
      then have nk: "k \<notin> set ?ks" by (simp add: cache_keys_def)
      show ?thesis
      proof (cases "int (length (cache_map (st_cache s))) \<ge> capacity (st_cache s)")
        case full: True
        show ?thesis
        proof (cases "cache_map (st_cache s)")
          case Nil
          with Set False full weaker show ?thesis
            by (simp add: LRUCache_set_def)
        next
          case (Cons y rest)
          have "recency_ordered \<lparr>st_cache = (st_cache s)\<lparr>cache_map := rest @ [(k, v)]\<rparr>,
              last_use = (last_use s)(k := clock s), clock = Suc (clock s)\<rparr>"
          proof (rule recency_touch [OF assms, where ks' = "tl ?ks"])
            show "set (tl ?ks) \<subseteq> set ?ks - {k}" using nk by (cases ?ks) auto
            show "sorted_wrt ?P (tl ?ks)" using so by (rule sorted_wrt_tl)
            show "distinct (tl ?ks)" using d by (rule distinct_tl)
            show "cache_keys ((st_cache s)\<lparr>cache_map := rest @ [(k, v)]\<rparr>) = tl ?ks @ [k]"
              using Cons by (simp add: cache_keys_def)
          qed
          with Set False full Cons show ?thesis
            by (simp add: LRUCache_set_def)
        qed
      next
        case notfull: False
        have "recency_ordered \<lparr>st_cache = (st_cache s)\<lparr>cache_map := cache_map (st_cache s) @ [(k, v)]\<rparr>,
              last_use = (last_use s)(k := clock s), clock = Suc (clock s)\<rparr>"
        proof (rule recency_touch [OF assms, where ks' = "?ks"])
          show "set ?ks \<subseteq> set ?ks - {k}" using nk by auto
          show "sorted_wrt ?P ?ks" by (rule so)
          show "distinct ?ks" by (rule d)
          show "cache_keys ((st_cache s)\<lparr>cache_map := cache_map (st_cache s) @ [(k, v)]\<rparr>) = ?ks @ [k]"
            by (simp add: cache_keys_def)
        qed
        with Set False notfull show ?thesis
          by (simp add: LRUCache_set_def)
      qed
    qed
  qed
qed

lemma recency_ordered_foldl:
  "recency_ordered s \<Longrightarrow> recency_ordered (foldl stamped_op s ops)"
  by (induction ops arbitrary: s) (auto simp: recency_ordered_step)

lemma recency_ordered_run: "recency_ordered (run_stamped cap ops)"
  unfolding run_stamped_def
  by (rule recency_ordered_foldl)
     (simp add: recency_ordered_def stamped_init_def LRUCache_init_def cache_keys_def)

lemma cache_stamped_op: "st_cache (stamped_op s op) = apply_cache_op (st_cache s) op"
  by (cases op) (auto split: prod.splits option.splits sum.splits)

lemma cache_foldl_stamped:
  "st_cache (foldl stamped_op s ops) = foldl apply_cache_op (st_cache s) ops"
  by (induction ops arbitrary: s) (auto simp: cache_stamped_op)

lemma cache_run_stamped: "st_cache (run_stamped cap ops) = run_cache_ops (LRUCache_init cap) ops"
  by (simp add: run_stamped_def run_cache_ops_def stamped_init_def cache_foldl_stamped)


lemma min_stamp_head:
  assumes "sorted_wrt (\<lambda>a b. f a < (f b :: nat)) (y # ys)"
  shows "\<forall>k' \<in> set (y # ys). f y \<le> f k'"
  using assms by (auto simp: less_imp_le)

text \<open>
  Claim C5. A cache created with a positive capacity never holds more than \<open>capacity\<close>
  entries, whatever sequence of \<open>get\<close> and \<open>set\<close> operations is run on it. Its keys
  are distinct and lie in the dictionary in the order of their last use (a hit of \<open>get\<close>
  and every \<open>set\<close> count as a use), so the first entry is the least recently used one.
  A \<open>set\<close> of a new key on a full cache succeeds, removes exactly that first entry and
  appends the new one. Inserting the distinct keys of \<open>kvs\<close> into a fresh cache leaves
  the last \<open>capacity\<close> of them, in order.
\<close>

theorem lru_cache_bounded_and_evicts_lru:
  fixes ops :: "('k, 'v) cache_op list" and kvs :: "('k \<times> 'v) list"
  assumes "0 < cap"
  shows "let s = run_stamped cap ops; c = run_cache_ops (LRUCache_init cap) ops in
     st_cache s = c \<and>
     int (length (cache_map c)) \<le> cap \<and>
     distinct (cache_keys c) \<and>
     sorted_wrt (\<lambda>a b. last_use s a < last_use s b) (cache_keys c) \<and>
     (\<forall>k v. k \<notin> set (cache_keys c) \<and> int (length (cache_map c)) = cap \<longrightarrow>
        (\<exists>y rest. cache_map c = y # rest \<and>
           LRUCache_set c k v = Inr (c\<lparr>cache_map := rest @ [(k, v)]\<rparr>) \<and>
           (\<forall>k' \<in> set (cache_keys c). last_use s (fst y) \<le> last_use s k'))) \<and>
     (distinct (map fst kvs) \<longrightarrow>
        cache_map (run_cache_ops (LRUCache_init cap) (map (\<lambda>(k, v). Set k v) kvs))
          = drop (length kvs - nat cap) kvs)"
proof -
  define s where "s = run_stamped cap ops"
  define c where "c = run_cache_ops (LRUCache_init cap) ops"
  have sc: "st_cache s = c" by (simp add: s_def c_def cache_run_stamped)
  have capc: "capacity c = cap" by (simp add: c_def LRUCache_init_def)
  have "int (length (cache_map (LRUCache_init cap :: ('k, 'v) LRUCache))) \<le> capacity (LRUCache_init cap :: ('k, 'v) LRUCache)"
    using assms by (simp add: LRUCache_init_def)
  from size_run_cache_ops [OF this, of ops]
  have bound: "int (length (cache_map c)) \<le> cap" by (simp add: c_def LRUCache_init_def)
  have ro: "recency_ordered s" by (simp add: s_def recency_ordered_run)
  then have dist: "distinct (cache_keys c)"
    and sorted: "sorted_wrt (\<lambda>a b. last_use s a < last_use s b) (cache_keys c)"
    using sc by (auto simp: recency_ordered_def)
  have evict: "\<exists>y rest. cache_map c = y # rest \<and>
           LRUCache_set c k v = Inr (c\<lparr>cache_map := rest @ [(k, v)]\<rparr>) \<and>
           (\<forall>k' \<in> set (cache_keys c). last_use s (fst y) \<le> last_use s k')"
    if new: "k \<notin> set (cache_keys c)" and full: "int (length (cache_map c)) = cap" for k v
  proof -
    from full assms have "cache_map c \<noteq> []" by auto
    then obtain y rest where yr: "cache_map c = y # rest" by (meson neq_Nil_conv)
    have "LRUCache_set c k v = Inr (c\<lparr>cache_map := rest @ [(k, v)]\<rparr>)"
      using new full yr capc by (simp add: LRUCache_set_def cache_keys_def)
    moreover have "\<forall>k' \<in> set (cache_keys c). last_use s (fst y) \<le> last_use s k'"
      using min_stamp_head [of "last_use s" "fst y" "map fst rest"] sorted yr
      by (simp add: cache_keys_def)
    ultimately show ?thesis using yr by blast
  qed
  have ins: "distinct (map fst kvs) \<longrightarrow>
        cache_map (run_cache_ops (LRUCache_init cap) (map (\<lambda>(k, v). Set k v) kvs))
          = drop (length kvs - nat cap) kvs"
    using insert_distinct_fresh [OF assms] by blast
  show ?thesis
    unfolding Let_def s_def [symmetric] c_def [symmetric]
    using sc bound dist sorted evict ins by blast
qed

text \<open>
  With capacity 2: after \<open>set a\<close>, \<open>set b\<close>, \<open>get a\<close> the key \<open>b\<close> is the least
  recently used one, and a \<open>set c\<close> evicts it.
\<close>

theorem lru_cache_bounded_and_evicts_lru_witness:
  "(0::int) < 2 \<and> distinct (map fst [(''a'', 1::nat), (''b'', 2), (''c'', 3)]) \<and>
   cache_map (run_cache_ops (LRUCache_init 2) [Set ''a'' (1::nat), Set ''b'' 2, Get ''a''])
     = [(''b'', 2), (''a'', 1)] \<and>
   LRUCache_set (run_cache_ops (LRUCache_init 2) [Set ''a'' (1::nat), Set ''b'' 2, Get ''a'']) ''c'' 3
     = Inr \<lparr>capacity = 2, cache_map = [(''a'', 1), (''c'', 3)]\<rparr> \<and>
   cache_map (run_cache_ops (LRUCache_init 2)
      (map (\<lambda>(k, v). Set k v) [(''a'', 1::nat), (''b'', 2), (''c'', 3)])) = [(''b'', 2), (''c'', 3)]"
  using lru_cache_bounded_and_evicts_lru
    [of 2 "[Set ''a'' (1::nat), Set ''b'' 2, Get ''a'']" "[(''a'', 1::nat), (''b'', 2), (''c'', 3)]"]
  by (simp add: Let_def run_cache_ops_def LRUCache_init_def LRUCache_get_def LRUCache_set_def)

section \<open>The field mapping and the result of one extraction\<close>

lemma map_entity_mk:
  "map_entity (mk_task t d a dl p cs) e =
     Inr (if py_in ''TITLE'' (ent_label e) \<and> \<not> truthy t then mk_task (PStr (ent_tok e)) d a dl p cs
          else if py_in ''ASSIGNEE'' (ent_label e) \<and> \<not> truthy a then mk_task t d (PStr (ent_tok e)) dl p cs
          else if py_in ''DEADLINE'' (ent_label e) \<and> \<not> truthy dl then mk_task t d a (PStr (ent_tok e)) p cs
          else if py_in ''PRIORITY'' (ent_label e) \<and> \<not> truthy p then mk_task t d a dl (PStr (ent_tok e)) cs
          else mk_task t d a dl p cs)"
  by (simp add: map_entity_def field_wanted_def getitem_def setitem_def mk_task_def
      ent_label_def ent_tok_def Let_def)

lemma map_entities_append:
  "map_entities task (xs @ ys) =
     (case map_entities task xs of Inl e \<Rightarrow> Inl e | Inr task' \<Rightarrow> map_entities task' ys)"
  by (induction xs arbitrary: task) (auto split: sum.splits)

lemma map_entity_fields:
  "map_entity (mk_task t d a dl p cs) e =
     Inr (mk_task (if step_title t e then PStr (ent_tok e) else t) d
            (if step_assignee t a e then PStr (ent_tok e) else a)
            (if step_deadline t a dl e then PStr (ent_tok e) else dl)
            (if step_priority t a dl p e then PStr (ent_tok e) else p) cs)"
  unfolding map_entity_mk step_title_def step_assignee_def step_deadline_def step_priority_def
  by simp

text \<open>The loop keeps the shape, the description and the scores, and every field that holds text.\<close>

lemma map_entities_keeps:
  "\<exists>t' a' dl' p'. map_entities (mk_task t d a dl p cs) ents = Inr (mk_task t' d a' dl' p' cs) \<and>
     (truthy t \<longrightarrow> t' = t) \<and> (truthy a \<longrightarrow> a' = a) \<and>
     (truthy dl \<longrightarrow> dl' = dl) \<and> (truthy p \<longrightarrow> p' = p)"
proof (induction ents arbitrary: t a dl p)
  case Nil
  show ?case by simp blast
next
  case (Cons e ents)
  define t1 where "t1 = (if step_title t e then PStr (ent_tok e) else t)"
  define a1 where "a1 = (if step_assignee t a e then PStr (ent_tok e) else a)"
  define dl1 where "dl1 = (if step_deadline t a dl e then PStr (ent_tok e) else dl)"
  define p1 where "p1 = (if step_priority t a dl p e then PStr (ent_tok e) else p)"
  have step: "map_entity (mk_task t d a dl p cs) e = Inr (mk_task t1 d a1 dl1 p1 cs)"
    by (simp only: map_entity_fields t1_def a1_def dl1_def p1_def)
  have k: "truthy t \<longrightarrow> t1 = t \<and> truthy t1" "truthy a \<longrightarrow> a1 = a \<and> truthy a1"
    "truthy dl \<longrightarrow> dl1 = dl \<and> truthy dl1" "truthy p \<longrightarrow> p1 = p \<and> truthy p1"
    by (auto simp: t1_def a1_def dl1_def p1_def step_title_def step_assignee_def
        step_deadline_def step_priority_def)
  from Cons.IH [of t1 a1 dl1 p1] obtain t' a' dl' p' where
    r: "map_entities (mk_task t1 d a1 dl1 p1 cs) ents = Inr (mk_task t' d a' dl' p' cs)"
    and k': "truthy t1 \<longrightarrow> t' = t1" "truthy a1 \<longrightarrow> a' = a1" "truthy dl1 \<longrightarrow> dl' = dl1"
      "truthy p1 \<longrightarrow> p' = p1"
    by blast
  have "map_entities (mk_task t d a dl p cs) (e # ents) = Inr (mk_task t' d a' dl' p' cs)"
    using step r by simp
  moreover have "truthy t \<longrightarrow> t' = t" using k(1) k'(1) by simp
  moreover have "truthy a \<longrightarrow> a' = a" using k(2) k'(2) by simp
  moreover have "truthy dl \<longrightarrow> dl' = dl" using k(3) k'(3) by simp
  moreover have "truthy p \<longrightarrow> p' = p" using k(4) k'(4) by simp
  ultimately show ?case by blast
qed

lemma names_one_fieldD:
  assumes "names_one_field e"
  shows "py_in ''TITLE'' (ent_label e) \<Longrightarrow> \<not> py_in ''ASSIGNEE'' (ent_label e) \<and> \<not> py_in ''DEADLINE'' (ent_label e) \<and> \<not> py_in ''PRIORITY'' (ent_label e)"
    and "py_in ''ASSIGNEE'' (ent_label e) \<Longrightarrow> \<not> py_in ''DEADLINE'' (ent_label e) \<and> \<not> py_in ''PRIORITY'' (ent_label e)"
    and "py_in ''DEADLINE'' (ent_label e) \<Longrightarrow> \<not> py_in ''PRIORITY'' (ent_label e)"
  using assms by (auto simp: names_one_field_def field_names_def split: if_splits)

lemma first_match_Cons:
  "first_match name (e # ents) =
     (if py_in name (ent_label e) then PStr (ent_tok e) else first_match name ents)"
  by (simp add: first_match_def)

lemma falsy_unset: "unset_or_text v \<Longrightarrow> (\<not> truthy v) = (v = PNone)"
  by (cases v) (auto simp: unset_or_text_def)

lemma settle_step:
  assumes "unset_or_text v" and "tok \<noteq> []"
  shows "settle (if py_in name (ent_label e) \<and> \<not> truthy v then PStr tok else v) name ents
         = (if v = PNone then (if py_in name (ent_label e) then PStr tok else first_match name ents) else v)"
  using assms falsy_unset [OF assms(1)] by (auto simp: settle_def)

lemma map_entities_first_match_gen:
  assumes "\<forall>e \<in> set ents. ent_tok e \<noteq> [] \<and> names_one_field e"
    and "unset_or_text t" "unset_or_text a" "unset_or_text dl" "unset_or_text p"
  shows "map_entities (mk_task t d a dl p cs) ents =
     Inr (mk_task (settle t ''TITLE'' ents) d (settle a ''ASSIGNEE'' ents)
            (settle dl ''DEADLINE'' ents) (settle p ''PRIORITY'' ents) cs)"
  using assms
proof (induction ents arbitrary: t a dl p)
  case Nil
  then show ?case by (simp add: settle_def first_match_def)
next
  case (Cons e ents)
  have tok: "ent_tok e \<noteq> []" and one: "names_one_field e"
    and rest: "\<forall>e \<in> set ents. ent_tok e \<noteq> [] \<and> names_one_field e"
    using Cons.prems(1) by auto
  note d = names_one_fieldD [OF one]
  let ?T = "py_in ''TITLE'' (ent_label e)" and ?A = "py_in ''ASSIGNEE'' (ent_label e)"
  let ?D = "py_in ''DEADLINE'' (ent_label e)" and ?P = "py_in ''PRIORITY'' (ent_label e)"
  have st: "step_title t e = (?T \<and> \<not> truthy t)" by (simp add: step_title_def)
  have sa: "step_assignee t a e = (?A \<and> \<not> truthy a)"
    using d by (auto simp: step_assignee_def step_title_def)
  have sd: "step_deadline t a dl e = (?D \<and> \<not> truthy dl)"
    using d by (auto simp: step_deadline_def step_assignee_def step_title_def)
  have sp: "step_priority t a dl p e = (?P \<and> \<not> truthy p)"
    using d by (auto simp: step_priority_def step_deadline_def step_assignee_def step_title_def)
  define t1 where "t1 = (if ?T \<and> \<not> truthy t then PStr (ent_tok e) else t)"
  define a1 where "a1 = (if ?A \<and> \<not> truthy a then PStr (ent_tok e) else a)"
  define dl1 where "dl1 = (if ?D \<and> \<not> truthy dl then PStr (ent_tok e) else dl)"
  define p1 where "p1 = (if ?P \<and> \<not> truthy p then PStr (ent_tok e) else p)"
  have step: "map_entity (mk_task t d a dl p cs) e = Inr (mk_task t1 d a1 dl1 p1 cs)"
    by (simp only: map_entity_fields st sa sd sp t1_def a1_def dl1_def p1_def)
  have ut: "unset_or_text (PStr (ent_tok e))" using tok by (simp add: unset_or_text_def)
  have u1: "unset_or_text t1" "unset_or_text a1" "unset_or_text dl1" "unset_or_text p1"
    using ut Cons.prems(2-5) by (simp_all add: t1_def a1_def dl1_def p1_def)
  have s1: "settle t1 ''TITLE'' ents = settle t ''TITLE'' (e # ents)"
    unfolding t1_def using settle_step [OF Cons.prems(2) tok] by (simp add: settle_def first_match_Cons)
  have s2: "settle a1 ''ASSIGNEE'' ents = settle a ''ASSIGNEE'' (e # ents)"
    unfolding a1_def using settle_step [OF Cons.prems(3) tok] by (simp add: settle_def first_match_Cons)
  have s3: "settle dl1 ''DEADLINE'' ents = settle dl ''DEADLINE'' (e # ents)"
    unfolding dl1_def using settle_step [OF Cons.prems(4) tok] by (simp add: settle_def first_match_Cons)
  have s4: "settle p1 ''PRIORITY'' ents = settle p ''PRIORITY'' (e # ents)"
    unfolding p1_def using settle_step [OF Cons.prems(5) tok] by (simp add: settle_def first_match_Cons)
  have "map_entities (mk_task t d a dl p cs) (e # ents) = map_entities (mk_task t1 d a1 dl1 p1 cs) ents"
    using step by simp
  also have "\<dots> = Inr (mk_task (settle t1 ''TITLE'' ents) d (settle a1 ''ASSIGNEE'' ents)
            (settle dl1 ''DEADLINE'' ents) (settle p1 ''PRIORITY'' ents) cs)"
    by (rule Cons.IH [OF rest u1])
  finally show ?case by (simp only: s1 s2 s3 s4)
qed


lemma map_entity_typed:
  assumes "str_or_none t" "str_or_none a" "str_or_none dl" "str_or_none p"
  shows "str_or_none (if step_title t e then PStr (ent_tok e) else t)"
    "str_or_none (if step_assignee t a e then PStr (ent_tok e) else a)"
    "str_or_none (if step_deadline t a dl e then PStr (ent_tok e) else dl)"
    "str_or_none (if step_priority t a dl p e then PStr (ent_tok e) else p)"
  using assms by (simp_all add: str_or_none_def)

lemma map_entities_typed:
  assumes "str_or_none t" "str_or_none a" "str_or_none dl" "str_or_none p"
    and "map_entities (mk_task t d a dl p cs) ents = Inr (mk_task t' d' a' dl' p' cs')"
  shows "str_or_none t' \<and> str_or_none a' \<and> str_or_none dl' \<and> str_or_none p'"
  using assms
proof (induction ents arbitrary: t a dl p)
  case Nil
  then show ?case by (simp add: mk_task_def)
next
  case (Cons e ents)
  from Cons.prems(5) have
    "map_entities (mk_task (if step_title t e then PStr (ent_tok e) else t) d
            (if step_assignee t a e then PStr (ent_tok e) else a)
            (if step_deadline t a dl e then PStr (ent_tok e) else dl)
            (if step_priority t a dl p e then PStr (ent_tok e) else p) cs) ents
       = Inr (mk_task t' d' a' dl' p' cs')"
    by (simp add: map_entity_fields)
  from Cons.IH [OF map_entity_typed [OF Cons.prems(1-4)] this] show ?case .
qed

lemma initial_task_mk:
  "initial_task ic ec cc =
     mk_task PNone PNone PNone PNone PNone
       (PDict [(''intent_confidence'', ic), (''entity_confidence'', ec), (''combined_confidence'', cc)])"
  by (simp add: initial_task_def mk_task_def)

lemma validate_task_mk:
  assumes "str_or_none t"
  shows "validate_task (mk_task t d a dl p (PDict scores)) th =
         confidence_verdict (get_or 0 (map_of scores ''combined_confidence'')) th"
  using assms
  by (cases t) (simp_all add: validate_task_def mk_task_def confidence_verdict_def str_or_none_def Let_def)

lemma build_result_total:
  "\<exists>t a dl p.
     map_entities (initial_task (get_or 0 (cls_confidence cr))
        (if get_or [] (ner_entities nr) \<noteq> [] then mean (map ent_confidence (get_or [] (ner_entities nr))) else 0)
        (fused_confidence cr nr)) (get_or [] (ner_entities nr))
       = Inr (mk_task t PNone a dl p (scores_of cr nr)) \<and>
     str_or_none t \<and> str_or_none a \<and> str_or_none dl \<and> str_or_none p \<and>
     build_result cr nr th =
       Inr \<lparr>task_info = mk_task t (PStr (description_of (cls_label cr))) a dl p (scores_of cr nr),
            valid = fst (confidence_verdict (fused_confidence cr nr) th),
            err_msg = fst (snd (confidence_verdict (fused_confidence cr nr) th)),
            final_confidence = snd (snd (confidence_verdict (fused_confidence cr nr) th))\<rparr>"
proof -
  define ents where "ents = get_or [] (ner_entities nr)"
  define ic where "ic = get_or 0 (cls_confidence cr)"
  define ec where "ec = (if ents \<noteq> [] then mean (map ent_confidence ents) else 0)"
  define cc where "cc = (ic + ec) / 2"
  have fc: "fused_confidence cr nr = cc"
    by (simp add: fused_confidence_def cc_def ec_def ic_def ents_def Let_def)
  have sc: "scores_of cr nr =
      PDict [(''intent_confidence'', ic), (''entity_confidence'', ec), (''combined_confidence'', cc)]"
    by (simp add: scores_of_def cc_def ec_def ic_def ents_def Let_def)
  from map_entities_keeps [of PNone PNone PNone PNone PNone "scores_of cr nr" ents]
  obtain t a dl p where
    me: "map_entities (mk_task PNone PNone PNone PNone PNone (scores_of cr nr)) ents
          = Inr (mk_task t PNone a dl p (scores_of cr nr))"
    by blast
  have ty: "str_or_none t \<and> str_or_none a \<and> str_or_none dl \<and> str_or_none p"
    by (rule map_entities_typed [OF _ _ _ _ me]) (simp_all add: str_or_none_def)
  have me': "map_entities (initial_task ic ec cc) ents = Inr (mk_task t PNone a dl p (scores_of cr nr))"
    using me by (simp add: initial_task_mk sc)
  have gd: "getitem (mk_task t PNone a dl p (scores_of cr nr)) ''description'' = Inr PNone"
    by (simp add: getitem_def mk_task_def)
  have sd: "setitem (mk_task t PNone a dl p (scores_of cr nr)) ''description'' (PStr x)
        = mk_task t (PStr x) a dl p (scores_of cr nr)" for x
    by (simp add: setitem_def mk_task_def)
  have vt: "validate_task (mk_task t (PStr x) a dl p (scores_of cr nr)) th = confidence_verdict cc th" for x
    using ty by (simp add: sc validate_task_mk get_or_def)
  have "build_result cr nr th =
       Inr \<lparr>task_info = mk_task t (PStr (description_of (cls_label cr))) a dl p (scores_of cr nr),
            valid = fst (confidence_verdict cc th),
            err_msg = fst (snd (confidence_verdict cc th)),
            final_confidence = snd (snd (confidence_verdict cc th))\<rparr>"
    unfolding build_result_def Let_def
    apply (fold ents_def)
    apply (fold ic_def)
    apply (fold ec_def)
    apply (fold cc_def)
    apply (simp only: me' sum.case gd truthy.simps not_False_eq_True if_True)
    apply (cases "cls_label cr")
     apply (simp add: sd vt description_of_def split: prod.splits)
    apply (simp add: sd vt description_of_def split: prod.splits)
    done
  then show ?thesis using me' ty fc unfolding ents_def ic_def ec_def by (simp add: ents_def) blast
qed

lemma run_pipeline_cache [simp]: "run_pipeline (self\<lparr>cache := c\<rparr>) text fmt = run_pipeline self text fmt"
  by (simp add: run_pipeline_def Let_def split: sum.splits)

lemma run_pipeline_Inr:
  assumes "run_pipeline self text fmt = (calls, Inr r)"
  shows "\<exists>cr nr. intent_classifier self (clean_text text (preprocessing_opts fmt)) (confidence_threshold self) = Inr cr \<and>
           ner_model self (clean_text text (preprocessing_opts fmt)) (confidence_threshold self) = Inr nr \<and>
           build_result cr nr (confidence_threshold self) = Inr r \<and>
           calls = [Classify (clean_text text (preprocessing_opts fmt)),
                    ExtractEntities (clean_text text (preprocessing_opts fmt))]"
  using assms by (auto simp: run_pipeline_def Let_def split: sum.splits)

lemma run_pipeline_calls: "fst (run_pipeline self text fmt) \<noteq> []"
  by (auto simp: run_pipeline_def Let_def split: sum.splits)

lemma extract_task_computed:
  assumes "extract_task self text fmt use_cache = (self', calls, Inr r)" and "calls \<noteq> []"
  shows "run_pipeline self text fmt = (calls, Inr r)"
  using assms
  by (auto simp: extract_task_def Let_def split: prod.splits option.splits sum.splits if_splits)

lemma extract_task_hit:
  assumes "extract_task self text fmt use_cache = (self', [], out)"
  shows "use_cache \<and> (\<exists>r. out = Inr r \<and> map_of (cache_map (cache self)) (cache_key_of fmt text) = Some r)"
proof -
  have ne: "fst (run_pipeline self text fmt) \<noteq> []" by (rule run_pipeline_calls)
  show ?thesis
    using assms ne
    by (auto simp: extract_task_def Let_def LRUCache_get_def
        split: prod.splits option.splits sum.splits if_splits)
qed

lemma sum_list_unit_bounds:
  "\<forall>x \<in> set xs. 0 \<le> x \<and> x \<le> (1::real) \<Longrightarrow> 0 \<le> sum_list xs \<and> sum_list xs \<le> real (length xs)"
  by (induction xs) auto

lemma mean_unit_bounds:
  assumes "\<forall>x \<in> set xs. 0 \<le> x \<and> x \<le> (1::real)" and "xs \<noteq> []"
  shows "0 \<le> mean xs \<and> mean xs \<le> 1"
proof -
  have l: "0 < real (length xs)" using assms(2) by simp
  from sum_list_unit_bounds [OF assms(1)] l show ?thesis
    by (simp add: mean_def divide_le_eq)
qed

lemma fused_in_range:
  assumes "0 \<le> get_or 0 (cls_confidence cr)" "get_or 0 (cls_confidence cr) \<le> 1"
    and "\<forall>e \<in> set (get_or [] (ner_entities nr)). 0 \<le> ent_confidence e \<and> ent_confidence e \<le> 1"
  shows "0 \<le> fused_confidence cr nr \<and> fused_confidence cr nr \<le> 1"
proof (cases "get_or [] (ner_entities nr) = []")
  case True
  with assms(1,2) show ?thesis by (simp add: fused_confidence_def)
next
  case False
  have "\<forall>x \<in> set (map ent_confidence (get_or [] (ner_entities nr))). 0 \<le> x \<and> x \<le> 1"
    using assms(3) by auto
  from mean_unit_bounds [OF this] False
  have "0 \<le> mean (map ent_confidence (get_or [] (ner_entities nr))) \<and>
        mean (map ent_confidence (get_or [] (ner_entities nr))) \<le> 1" by simp
  with assms(1,2) False show ?thesis by (simp add: fused_confidence_def Let_def)
qed

lemma build_result_combined:
  "\<exists>r. build_result cr nr th = Inr r \<and> combined_confidence_of r = Some (fused_confidence cr nr)"
proof -
  from build_result_total [of cr nr th] obtain t a dl p where
    "build_result cr nr th =
       Inr \<lparr>task_info = mk_task t (PStr (description_of (cls_label cr))) a dl p (scores_of cr nr),
            valid = fst (confidence_verdict (fused_confidence cr nr) th),
            err_msg = fst (snd (confidence_verdict (fused_confidence cr nr) th)),
            final_confidence = snd (snd (confidence_verdict (fused_confidence cr nr) th))\<rparr>"
    by blast
  then show ?thesis
    by (simp add: combined_confidence_of_def mk_task_def scores_of_def fused_confidence_def Let_def)
qed

lemma build_result_verdict:
  assumes "build_result cr nr th = Inr r"
  shows "validate_task (task_info r) th = confidence_verdict (fused_confidence cr nr) th \<and>
         (valid r, err_msg r, final_confidence r) = confidence_verdict (fused_confidence cr nr) th"
proof -
  from build_result_total [of cr nr th] assms obtain t a dl p where
    ty: "str_or_none t"
    and r: "r = \<lparr>task_info = mk_task t (PStr (description_of (cls_label cr))) a dl p (scores_of cr nr),
            valid = fst (confidence_verdict (fused_confidence cr nr) th),
            err_msg = fst (snd (confidence_verdict (fused_confidence cr nr) th)),
            final_confidence = snd (snd (confidence_verdict (fused_confidence cr nr) th))\<rparr>"
    by auto
  have "validate_task (mk_task t (PStr (description_of (cls_label cr))) a dl p (scores_of cr nr)) th =
        confidence_verdict (fused_confidence cr nr) th"
    using ty by (simp add: scores_of_def Let_def validate_task_mk get_or_def fused_confidence_def)
  then show ?thesis by (simp add: r)
qed

text \<open>
  Claim C1, as amended. \<open>extract_task\<close> stores the plain average of the intent
  confidence and the mean entity confidence (0 when the recogniser returns no entity);
  nothing clamps it. For every result that a call computes (a call that reaches the
  collaborators), the stored \<open>combined_confidence\<close> is that average of what the two
  collaborators returned, and when the intent confidence and every entity confidence lie
  in \<open>[0, 1]\<close> the average lies in \<open>[0, 1]\<close> and equals its clamped value. The
  result carries the verdict of \<open>validate_task\<close> on that average; an average outside
  \<open>[0, 1]\<close> is stored as computed and \<open>validate_task\<close> reports it as out of range:
  the result is invalid, with the out-of-range message and the raw average as its final
  confidence.
\<close>

theorem combined_confidence_is_plain_average:
  assumes "extract_task self text fmt use_cache = (self', calls, Inr r)" and "calls \<noteq> []"
  shows "\<exists>cr nr.
           intent_classifier self (clean_text text (preprocessing_opts fmt)) (confidence_threshold self) = Inr cr \<and>
           ner_model self (clean_text text (preprocessing_opts fmt)) (confidence_threshold self) = Inr nr \<and>
           combined_confidence_of r = Some (fused_confidence cr nr) \<and>
           (0 \<le> get_or 0 (cls_confidence cr) \<and> get_or 0 (cls_confidence cr) \<le> 1 \<and>
            (\<forall>e \<in> set (get_or [] (ner_entities nr)). 0 \<le> ent_confidence e \<and> ent_confidence e \<le> 1)
            \<longrightarrow> fused_confidence cr nr = clamp (fused_confidence cr nr) 0 1 \<and>
                0 \<le> fused_confidence cr nr \<and> fused_confidence cr nr \<le> 1) \<and>
           validate_task (task_info r) (confidence_threshold self) =
             confidence_verdict (fused_confidence cr nr) (confidence_threshold self) \<and>
           (valid r, err_msg r, final_confidence r) =
             validate_task (task_info r) (confidence_threshold self) \<and>
           (fused_confidence cr nr < 0 \<or> 1 < fused_confidence cr nr \<longrightarrow>
              validate_task (task_info r) (confidence_threshold self) =
                (False, ''combined_confidence score is out of valid range [0,1].'', fused_confidence cr nr) \<and>
              \<not> valid r \<and>
              err_msg r = ''combined_confidence score is out of valid range [0,1].'' \<and>
              final_confidence r = fused_confidence cr nr)"
proof -
  from extract_task_computed [OF assms] have "run_pipeline self text fmt = (calls, Inr r)" .
  from run_pipeline_Inr [OF this] obtain cr nr where
    c: "intent_classifier self (clean_text text (preprocessing_opts fmt)) (confidence_threshold self) = Inr cr"
    and n: "ner_model self (clean_text text (preprocessing_opts fmt)) (confidence_threshold self) = Inr nr"
    and b: "build_result cr nr (confidence_threshold self) = Inr r"
    by blast
  from build_result_combined [of cr nr "confidence_threshold self"] b
  have cc: "combined_confidence_of r = Some (fused_confidence cr nr)" by simp
  have rng: "0 \<le> get_or 0 (cls_confidence cr) \<and> get_or 0 (cls_confidence cr) \<le> 1 \<and>
        (\<forall>e \<in> set (get_or [] (ner_entities nr)). 0 \<le> ent_confidence e \<and> ent_confidence e \<le> 1)
        \<longrightarrow> fused_confidence cr nr = clamp (fused_confidence cr nr) 0 1 \<and>
        0 \<le> fused_confidence cr nr \<and> fused_confidence cr nr \<le> 1"
    using fused_in_range [of cr nr] by (simp add: clamp_def)
  from build_result_verdict [OF b]
  have v: "validate_task (task_info r) (confidence_threshold self) =
             confidence_verdict (fused_confidence cr nr) (confidence_threshold self)"
    and f: "(valid r, err_msg r, final_confidence r) =
             confidence_verdict (fused_confidence cr nr) (confidence_threshold self)"
    by simp_all
  have f': "(valid r, err_msg r, final_confidence r) =
             validate_task (task_info r) (confidence_threshold self)"
    using v f by simp
  have out: "fused_confidence cr nr < 0 \<or> 1 < fused_confidence cr nr \<longrightarrow>
              validate_task (task_info r) (confidence_threshold self) =
                (False, ''combined_confidence score is out of valid range [0,1].'', fused_confidence cr nr) \<and>
              \<not> valid r \<and>
              err_msg r = ''combined_confidence score is out of valid range [0,1].'' \<and>
              final_confidence r = fused_confidence cr nr"
  proof
    assume o: "fused_confidence cr nr < 0 \<or> 1 < fused_confidence cr nr"
    then have cv: "confidence_verdict (fused_confidence cr nr) (confidence_threshold self) =
      (False, ''combined_confidence score is out of valid range [0,1].'', fused_confidence cr nr)"
      by (simp add: confidence_verdict_def)
    from f [unfolded cv] v [unfolded cv]
    show "validate_task (task_info r) (confidence_threshold self) =
                (False, ''combined_confidence score is out of valid range [0,1].'', fused_confidence cr nr) \<and>
              \<not> valid r \<and>
              err_msg r = ''combined_confidence score is out of valid range [0,1].'' \<and>
              final_confidence r = fused_confidence cr nr"
      by simp
  qed
  from c n cc rng v f' out show ?thesis by blast
qed

lemmas clean_defs = clean_text_def preprocessing_opts_def remove_html_tags_def
  normalize_whitespace_def standardize_punctuation_def strip_def tag_end_def entity_end_def
  is_space_def is_mark_def Let_def

lemma alice_clean: "clean_text alice_text (preprocessing_opts ''email'') = alice_text"
  by (simp add: alice_text_def clean_defs)

lemma alice_build:
  "build_result \<lparr>cls_label = Some ''TASK'', cls_confidence = Some (9 / 10)\<rparr>
      \<lparr>ner_entities = Some alice_friday\<rparr> (3 / 5) = Inr alice_result"
  by (simp add: build_result_def alice_friday_def alice_result_def initial_task_def mk_task_def
      map_entity_def field_wanted_def getitem_def setitem_def get_or_def mean_def validate_task_def
      upper_def char_upper_def Let_def)

lemma alice_extract:
  "extract_task (demo_extractor sure_classifier alice_recognizer) alice_text ''email'' True =
     ((demo_extractor sure_classifier alice_recognizer)
        \<lparr>cache := \<lparr>capacity = 100, cache_map = [(cache_key_of ''email'' alice_text, alice_result)]\<rparr>\<rparr>,
      [Classify alice_text, ExtractEntities alice_text], Inr alice_result)"
  by (simp add: extract_task_def run_pipeline_def alice_clean alice_build demo_extractor_def
      sure_classifier_def alice_recognizer_def LRUCache_init_def LRUCache_get_def LRUCache_set_def
      cache_key_of_def Let_def)

lemma overconfident_extract:
  "extract_task (demo_extractor overconfident_classifier silent_recognizer) ''ship it'' ''chat'' False =
     (demo_extractor overconfident_classifier silent_recognizer,
      [Classify ''ship it'', ExtractEntities ''ship it''], Inr overconfident_result)"
  by (simp add: extract_task_def run_pipeline_def demo_extractor_def overconfident_classifier_def
      silent_recognizer_def build_result_def initial_task_def getitem_def setitem_def get_or_def
      validate_task_def overconfident_result_def mk_task_def clean_defs)

text \<open>
  The request of the specification's scenario A, with a classifier that is 0.9 sure and
  four entities: the call computes its result, stores \<open>(0.9 + 0.75) / 2\<close> and
  \<open>validate_task\<close> accepts it. With a classifier that returns the confidence 3 and no
  entity, the call stores 1.5 and \<open>validate_task\<close> reports it as out of range.
\<close>

theorem combined_confidence_is_plain_average_witness:
  "extract_task (demo_extractor sure_classifier alice_recognizer) alice_text ''email'' True =
     ((demo_extractor sure_classifier alice_recognizer)
        \<lparr>cache := \<lparr>capacity = 100, cache_map = [(cache_key_of ''email'' alice_text, alice_result)]\<rparr>\<rparr>,
      [Classify alice_text, ExtractEntities alice_text], Inr alice_result) \<and>
   [Classify alice_text, ExtractEntities alice_text] \<noteq> [] \<and>
   combined_confidence_of alice_result = Some ((9 / 10 + (8 / 10 + 7 / 10 + 6 / 10 + 9 / 10) / 4) / 2) \<and>
   (0::real) \<le> 33 / 40 \<and> (33::real) / 40 \<le> 1 \<and>
   validate_task (task_info alice_result) (3 / 5) = (True, [], 33 / 40) \<and>
   extract_task (demo_extractor overconfident_classifier silent_recognizer) ''ship it'' ''chat'' False =
     (demo_extractor overconfident_classifier silent_recognizer,
      [Classify ''ship it'', ExtractEntities ''ship it''], Inr overconfident_result) \<and>
   combined_confidence_of overconfident_result = Some (3 / 2) \<and> (1::real) < 3 / 2 \<and>
   validate_task (task_info overconfident_result) (3 / 5) =
     (False, ''combined_confidence score is out of valid range [0,1].'', 3 / 2) \<and>
   \<not> valid overconfident_result \<and>
   err_msg overconfident_result = ''combined_confidence score is out of valid range [0,1].'' \<and>
   final_confidence overconfident_result = 3 / 2"
proof -
  from combined_confidence_is_plain_average [OF alice_extract]
  have a: "combined_confidence_of alice_result = Some (33 / 40)"
    and av: "validate_task (task_info alice_result) (3 / 5) = (True, [], 33 / 40)"
    by (simp_all add: demo_extractor_def sure_classifier_def alice_recognizer_def fused_confidence_def
        alice_friday_def mean_def get_or_def confidence_verdict_def Let_def)
  from combined_confidence_is_plain_average [OF overconfident_extract]
  have o: "combined_confidence_of overconfident_result = Some (3 / 2) \<and>
     validate_task (task_info overconfident_result) (3 / 5) =
       (False, ''combined_confidence score is out of valid range [0,1].'', 3 / 2) \<and>
     \<not> valid overconfident_result \<and>
     err_msg overconfident_result = ''combined_confidence score is out of valid range [0,1].'' \<and>
     final_confidence overconfident_result = 3 / 2"
    by (simp add: demo_extractor_def overconfident_classifier_def silent_recognizer_def
        fused_confidence_def get_or_def confidence_verdict_def Let_def)
  from a av o show ?thesis by (simp add: alice_extract overconfident_extract)
qed

text \<open>
  Claim C1 as stated fails: a classifier that returns the confidence 3 and a recogniser
  that returns no entity give the stored value 1.5, where the clamp would give 1.
\<close>

theorem combined_confidence_clamped_counterexample:
  "map_sum id combined_confidence_of
     (snd (snd (extract_task (demo_extractor overconfident_classifier silent_recognizer)
                   ''ship it'' ''chat'' False))) = Inr (Some (3 / 2)) \<and>
   clamp ((3 + 0) / 2) 0 1 = 1 \<and> \<not> (3 / 2 \<le> (1::real))"
  by (simp add: extract_task_def run_pipeline_def demo_extractor_def overconfident_classifier_def
      silent_recognizer_def build_result_def initial_task_def getitem_def setitem_def get_or_def
      validate_task_def combined_confidence_of_def clamp_def Let_def)

lemma build_result_pipeline_result:
  "\<exists>r. build_result cr nr th = Inr r \<and> pipeline_result th r"
proof -
  from build_result_total [of cr nr th] obtain t a dl p where
    ty: "str_or_none t" "str_or_none a" "str_or_none dl" "str_or_none p"
    and b: "build_result cr nr th =
       Inr \<lparr>task_info = mk_task t (PStr (description_of (cls_label cr))) a dl p (scores_of cr nr),
            valid = fst (confidence_verdict (fused_confidence cr nr) th),
            err_msg = fst (snd (confidence_verdict (fused_confidence cr nr) th)),
            final_confidence = snd (snd (confidence_verdict (fused_confidence cr nr) th))\<rparr>"
    by blast
  let ?r = "\<lparr>task_info = mk_task t (PStr (description_of (cls_label cr))) a dl p (scores_of cr nr),
            valid = fst (confidence_verdict (fused_confidence cr nr) th),
            err_msg = fst (snd (confidence_verdict (fused_confidence cr nr) th)),
            final_confidence = snd (snd (confidence_verdict (fused_confidence cr nr) th))\<rparr>"
  obtain ic ec where sc: "scores_of cr nr =
      PDict [(''intent_confidence'', ic), (''entity_confidence'', ec),
             (''combined_confidence'', fused_confidence cr nr)]"
    by (simp add: scores_of_def fused_confidence_def Let_def)
  have d: "description_of (cls_label cr) \<noteq> []"
    by (simp add: description_of_def split: option.splits)
  have v: "validate_task (task_info ?r) th = confidence_verdict (fused_confidence cr nr) th"
    using ty(1) by (simp add: sc validate_task_mk get_or_def)
  have vv: "(valid ?r \<longleftrightarrow> \<not> (fused_confidence cr nr < 0 \<or> fused_confidence cr nr > 1 \<or> fused_confidence cr nr < th))"
    by (simp add: confidence_verdict_def)
  have tr: "(valid ?r, err_msg ?r, final_confidence ?r) = confidence_verdict (fused_confidence cr nr) th"
    by simp
  have "pipeline_result th ?r"
    unfolding pipeline_result_def
    apply (rule exI [of _ t], rule exI [of _ "description_of (cls_label cr)"], rule exI [of _ a],
        rule exI [of _ dl], rule exI [of _ p], rule exI [of _ ic], rule exI [of _ ec],
        rule exI [of _ "fused_confidence cr nr"])
    using ty d v vv tr sc by (intro conjI) simp_all
  with b show ?thesis by blast
qed

lemma LRUCache_get_values:
  assumes "\<forall>(k, v) \<in> set (cache_map c). P v" and "LRUCache_get c key = (res, c')"
  shows "(\<forall>v. res = Some v \<longrightarrow> P v) \<and> (\<forall>(k, v) \<in> set (cache_map c'). P v) \<and> capacity c' = capacity c"
proof (cases "map_of (cache_map c) key")
  case None
  with assms show ?thesis by (auto simp: LRUCache_get_def)
next
  case (Some v)
  then have "(key, v) \<in> set (cache_map c)" by (rule map_of_SomeD)
  then have pv: "P v" using assms(1) by auto
  have "set (AList.delete key (cache_map c)) \<subseteq> set (cache_map c)"
    by (auto simp: AList.delete_eq)
  with assms Some pv show ?thesis by (auto simp: LRUCache_get_def)
qed

lemma LRUCache_set_values:
  assumes "\<forall>(k, v) \<in> set (cache_map c). P v" and "P x" and "LRUCache_set c key x = Inr c'"
  shows "(\<forall>(k, v) \<in> set (cache_map c'). P v) \<and> capacity c' = capacity c"
proof -
  have sub: "set (AList.delete key (cache_map c)) \<subseteq> set (cache_map c)"
    by (auto simp: AList.delete_eq)
  have tl: "\<And>y ys. cache_map c = y # ys \<Longrightarrow> set ys \<subseteq> set (cache_map c)" by auto
  show ?thesis
    using assms sub
    by (auto simp: LRUCache_set_def split: if_splits list.splits)
qed

text \<open>
  Claim C10. Every result that \<open>extract_task\<close> returns, computed or served from a cache
  that holds only results of earlier calls, has a task dictionary with exactly the six
  keys \<open>title\<close>, \<open>description\<close>, \<open>assignee\<close>, \<open>deadline\<close>, \<open>priority\<close> and
  \<open>confidence_scores\<close>; the scores are a dictionary, the description is a non-empty string
  and the four mapped fields are strings or \<open>None\<close>. On such a task \<open>validate_task\<close>
  never takes its missing-field or wrong-type branch: its verdict is that of the two
  confidence checks, so \<open>valid\<close> is false exactly when the combined confidence is outside
  \<open>[0, 1]\<close> or below the threshold. The cache keeps holding only such results.
\<close>

theorem pipeline_tasks_are_well_formed:
  assumes "\<forall>(k, v) \<in> set (cache_map (cache self)). pipeline_result (confidence_threshold self) v"
    and "extract_task self text fmt use_cache = (self', calls, Inr r)"
  shows "pipeline_result (confidence_threshold self) r \<and>
         (\<forall>(k, v) \<in> set (cache_map (cache self')). pipeline_result (confidence_threshold self) v) \<and>
         confidence_threshold self' = confidence_threshold self"
proof -
  let ?P = "pipeline_result (confidence_threshold self)"
  let ?key = "cache_key_of fmt text"
  obtain res c1 where g: "(if use_cache then LRUCache_get (cache self) ?key else (None, cache self)) = (res, c1)"
    by (cases "if use_cache then LRUCache_get (cache self) ?key else (None, cache self)") auto
  have g1: "(\<forall>v. res = Some v \<longrightarrow> ?P v) \<and> (\<forall>(k, v) \<in> set (cache_map c1). ?P v)"
  proof (cases use_cache)
    case True
    with g have "LRUCache_get (cache self) ?key = (res, c1)" by simp
    from LRUCache_get_values [OF assms(1) this] show ?thesis by simp
  next
    case False
    with g assms(1) show ?thesis by auto
  qed
  show ?thesis
  proof (cases res)
    case (Some v)
    with assms(2) g have "r = v" "self' = self\<lparr>cache := c1\<rparr>"
      by (auto simp: extract_task_def Let_def)
    with g1 Some show ?thesis by simp
  next
    case None
    obtain calls' out where rp: "run_pipeline self text fmt = (calls', out)"
      by (cases "run_pipeline self text fmt") auto
    from assms(2) g None rp obtain r' where out: "out = Inr r'"
      by (cases out) (auto simp: extract_task_def Let_def)
    from run_pipeline_Inr [OF rp [unfolded out]] obtain cr nr where
      b: "build_result cr nr (confidence_threshold self) = Inr r'" by blast
    from build_result_pipeline_result [of cr nr "confidence_threshold self"] b
    have pr: "?P r'" by simp
    show ?thesis
    proof (cases use_cache)
      case False
      with assms(2) g None rp out have "r = r'" "self' = self\<lparr>cache := c1\<rparr>"
        by (auto simp: extract_task_def Let_def)
      with pr g1 show ?thesis by simp
    next
      case True
      with assms(2) g None rp out obtain c2 where
        s: "LRUCache_set c1 ?key r' = Inr c2" and e: "r = r'" "self' = self\<lparr>cache := c2\<rparr>"
        by (auto simp: extract_task_def Let_def split: sum.splits)
      from LRUCache_set_values [OF conjunct2 [OF g1] pr s] e pr show ?thesis by simp
    qed
  qed
qed

text \<open>The first call on a fresh extractor: the cache is empty and the result is computed.\<close>

theorem pipeline_tasks_are_well_formed_witness:
  "cache_map (cache (demo_extractor sure_classifier alice_recognizer :: extraction_result TaskExtractor)) = [] \<and>
   extract_task (demo_extractor sure_classifier alice_recognizer) alice_text ''email'' True =
     ((demo_extractor sure_classifier alice_recognizer)
        \<lparr>cache := \<lparr>capacity = 100, cache_map = [(cache_key_of ''email'' alice_text, alice_result)]\<rparr>\<rparr>,
      [Classify alice_text, ExtractEntities alice_text], Inr alice_result) \<and>
   pipeline_result (3 / 5) alice_result \<and>
   validate_task (task_info alice_result) (3 / 5) = (True, [], 33 / 40)"
proof -
  have h: "\<forall>(k, v) \<in> set (cache_map (cache (demo_extractor sure_classifier alice_recognizer))).
       pipeline_result (confidence_threshold (demo_extractor sure_classifier alice_recognizer)) v"
    by (simp add: demo_extractor_def LRUCache_init_def)
  have v: "validate_task (task_info alice_result) (3 / 5) = (True, [], 33 / 40)"
    by (simp add: alice_result_def validate_task_def mk_task_def get_or_def)
  from pipeline_tasks_are_well_formed [OF h alice_extract]
  have "pipeline_result (3 / 5) alice_result" by (simp add: demo_extractor_def)
  moreover have "cache_map (cache (demo_extractor sure_classifier alice_recognizer :: extraction_result TaskExtractor)) = []"
    by (simp add: demo_extractor_def LRUCache_init_def)
  ultimately show ?thesis using v alice_extract by blast
qed

lemma map_of_mk_task_text:
  assumes "map_of (mk_task t d a dl p cs) key = Some (PStr s)"
  shows "(key = ''title'' \<and> t = PStr s) \<or> (key = ''description'' \<and> d = PStr s) \<or>
         (key = ''assignee'' \<and> a = PStr s) \<or> (key = ''deadline'' \<and> dl = PStr s) \<or>
         (key = ''priority'' \<and> p = PStr s) \<or> (key = ''confidence_scores'' \<and> cs = PStr s)"
  using assms by (simp add: mk_task_def split: if_splits)

lemma map_of_mk_task_simps:
  "map_of (mk_task t d a dl p cs) ''title'' = Some t"
  "map_of (mk_task t d a dl p cs) ''description'' = Some d"
  "map_of (mk_task t d a dl p cs) ''assignee'' = Some a"
  "map_of (mk_task t d a dl p cs) ''deadline'' = Some dl"
  "map_of (mk_task t d a dl p cs) ''priority'' = Some p"
  "map_of (mk_task t d a dl p cs) ''confidence_scores'' = Some cs"
  by (simp_all add: mk_task_def)

lemma filled_field_stays:
  assumes "map_entities (initial_task ic ec cc) xs = Inr task"
    and "map_of task key = Some (PStr s)" and "s \<noteq> []"
  shows "\<exists>task'. map_entities (initial_task ic ec cc) (xs @ ys) = Inr task' \<and>
           map_of task' key = Some (PStr s)"
proof -
  let ?cs = "PDict [(''intent_confidence'', ic), (''entity_confidence'', ec), (''combined_confidence'', cc)]"
  from map_entities_keeps [of PNone PNone PNone PNone PNone ?cs xs] assms(1)
  obtain t a dl p where task: "task = mk_task t PNone a dl p ?cs"
    by (auto simp: initial_task_mk)
  from map_entities_keeps [of t PNone a dl p ?cs ys]
  obtain t' a' dl' p' where
    r: "map_entities (mk_task t PNone a dl p ?cs) ys = Inr (mk_task t' PNone a' dl' p' ?cs)"
    and k: "truthy t \<longrightarrow> t' = t" "truthy a \<longrightarrow> a' = a" "truthy dl \<longrightarrow> dl' = dl" "truthy p \<longrightarrow> p' = p"
    by blast
  have run: "map_entities (initial_task ic ec cc) (xs @ ys) = Inr (mk_task t' PNone a' dl' p' ?cs)"
    using assms(1) task r by (simp add: map_entities_append)
  from map_of_mk_task_text [OF assms(2) [unfolded task]]
  have "map_of (mk_task t' PNone a' dl' p' ?cs) key = Some (PStr s)"
    using k assms(3) by (auto simp: map_of_mk_task_simps)
  with run show ?thesis by blast
qed

lemma falsy_str_or_none: "str_or_none v \<Longrightarrow> (\<not> truthy v) = (v = PNone \<or> v = PStr [])"
  by (cases v) (auto simp: str_or_none_def)

lemma mapping_step_rule:
  "\<exists>t a dl p.
     map_entities (initial_task ic ec cc) xs =
       Inr (mk_task t PNone a dl p
              (PDict [(''intent_confidence'', ic), (''entity_confidence'', ec),
                      (''combined_confidence'', cc)])) \<and>
     str_or_none t \<and> str_or_none a \<and> str_or_none dl \<and> str_or_none p \<and>
     map_entities (initial_task ic ec cc) (xs @ [e]) =
       Inr (if py_in ''TITLE'' (ent_label e) \<and> (t = PNone \<or> t = PStr [])
            then mk_task (PStr (ent_tok e)) PNone a dl p
                   (PDict [(''intent_confidence'', ic), (''entity_confidence'', ec),
                           (''combined_confidence'', cc)])
            else if py_in ''ASSIGNEE'' (ent_label e) \<and> (a = PNone \<or> a = PStr [])
            then mk_task t PNone (PStr (ent_tok e)) dl p
                   (PDict [(''intent_confidence'', ic), (''entity_confidence'', ec),
                           (''combined_confidence'', cc)])
            else if py_in ''DEADLINE'' (ent_label e) \<and> (dl = PNone \<or> dl = PStr [])
            then mk_task t PNone a (PStr (ent_tok e)) p
                   (PDict [(''intent_confidence'', ic), (''entity_confidence'', ec),
                           (''combined_confidence'', cc)])
            else if py_in ''PRIORITY'' (ent_label e) \<and> (p = PNone \<or> p = PStr [])
            then mk_task t PNone a dl (PStr (ent_tok e))
                   (PDict [(''intent_confidence'', ic), (''entity_confidence'', ec),
                           (''combined_confidence'', cc)])
            else mk_task t PNone a dl p
                   (PDict [(''intent_confidence'', ic), (''entity_confidence'', ec),
                           (''combined_confidence'', cc)]))"
proof -
  let ?cs = "PDict [(''intent_confidence'', ic), (''entity_confidence'', ec), (''combined_confidence'', cc)]"
  from map_entities_keeps [of PNone PNone PNone PNone PNone ?cs xs]
  obtain t a dl p where
    me: "map_entities (mk_task PNone PNone PNone PNone PNone ?cs) xs = Inr (mk_task t PNone a dl p ?cs)"
    by blast
  have ty: "str_or_none t \<and> str_or_none a \<and> str_or_none dl \<and> str_or_none p"
    by (rule map_entities_typed [OF _ _ _ _ me]) (simp_all add: str_or_none_def)
  then have f: "(\<not> truthy t) = (t = PNone \<or> t = PStr [])" "(\<not> truthy a) = (a = PNone \<or> a = PStr [])"
    "(\<not> truthy dl) = (dl = PNone \<or> dl = PStr [])" "(\<not> truthy p) = (p = PNone \<or> p = PStr [])"
    by (simp_all add: falsy_str_or_none)
  have me': "map_entities (initial_task ic ec cc) xs = Inr (mk_task t PNone a dl p ?cs)"
    using me by (simp add: initial_task_mk)
  have "map_entities (initial_task ic ec cc) (xs @ [e]) = map_entity (mk_task t PNone a dl p ?cs) e"
    by (simp add: map_entities_append me' split: sum.splits)
  then have st: "map_entities (initial_task ic ec cc) (xs @ [e]) =
       Inr (if py_in ''TITLE'' (ent_label e) \<and> (t = PNone \<or> t = PStr [])
            then mk_task (PStr (ent_tok e)) PNone a dl p ?cs
            else if py_in ''ASSIGNEE'' (ent_label e) \<and> (a = PNone \<or> a = PStr [])
            then mk_task t PNone (PStr (ent_tok e)) dl p ?cs
            else if py_in ''DEADLINE'' (ent_label e) \<and> (dl = PNone \<or> dl = PStr [])
            then mk_task t PNone a (PStr (ent_tok e)) p ?cs
            else if py_in ''PRIORITY'' (ent_label e) \<and> (p = PNone \<or> p = PStr [])
            then mk_task t PNone a dl (PStr (ent_tok e)) ?cs
            else mk_task t PNone a dl p ?cs)"
    by (simp only: map_entity_mk f)
  from me' ty st show ?thesis by blast
qed

text \<open>
  Claim C8, as amended. The mapping loop of \<open>extract_task\<close> scans the entities in recogniser
  order. At every position of the list, the task built from the entities before it has
  text or \<open>None\<close> in its four mapped fields, and the entity at that position fills the
  first of \<open>title\<close>, \<open>assignee\<close>, \<open>deadline\<close>, \<open>priority\<close>, in this order, whose name its
  upper-cased label contains and whose value is still \<open>None\<close> or the empty string, with
  its token; it changes nothing else, and nothing at all when there is no such field. A
  field that holds a non-empty token after some prefix of the entities holds the same
  token at the end: it is never overwritten. When every token is non-empty and every
  label contains at most one of the four names, each field ends with the token of the
  first entity whose label contains its name, and with \<open>None\<close> if there is none.
\<close>

theorem field_mapping_first_match_wins:
  "(\<forall>xs e ys. ents = xs @ e # ys \<longrightarrow>
      (\<exists>t a dl p.
         map_entities (initial_task ic ec cc) xs =
           Inr (mk_task t PNone a dl p
                  (PDict [(''intent_confidence'', ic), (''entity_confidence'', ec),
                          (''combined_confidence'', cc)])) \<and>
         str_or_none t \<and> str_or_none a \<and> str_or_none dl \<and> str_or_none p \<and>
         map_entities (initial_task ic ec cc) (xs @ [e]) =
           Inr (if py_in ''TITLE'' (ent_label e) \<and> (t = PNone \<or> t = PStr [])
                then mk_task (PStr (ent_tok e)) PNone a dl p
                       (PDict [(''intent_confidence'', ic), (''entity_confidence'', ec),
                               (''combined_confidence'', cc)])
                else if py_in ''ASSIGNEE'' (ent_label e) \<and> (a = PNone \<or> a = PStr [])
                then mk_task t PNone (PStr (ent_tok e)) dl p
                       (PDict [(''intent_confidence'', ic), (''entity_confidence'', ec),
                               (''combined_confidence'', cc)])
                else if py_in ''DEADLINE'' (ent_label e) \<and> (dl = PNone \<or> dl = PStr [])
                then mk_task t PNone a (PStr (ent_tok e)) p
                       (PDict [(''intent_confidence'', ic), (''entity_confidence'', ec),
                               (''combined_confidence'', cc)])
                else if py_in ''PRIORITY'' (ent_label e) \<and> (p = PNone \<or> p = PStr [])
                then mk_task t PNone a dl (PStr (ent_tok e))
                       (PDict [(''intent_confidence'', ic), (''entity_confidence'', ec),
                               (''combined_confidence'', cc)])
                else mk_task t PNone a dl p
                       (PDict [(''intent_confidence'', ic), (''entity_confidence'', ec),
                               (''combined_confidence'', cc)])))) \<and>
   (\<forall>xs ys task key s.
      ents = xs @ ys \<and> map_entities (initial_task ic ec cc) xs = Inr task \<and>
      map_of task key = Some (PStr s) \<and> s \<noteq> [] \<longrightarrow>
      (\<exists>task'. map_entities (initial_task ic ec cc) ents = Inr task' \<and>
         map_of task' key = Some (PStr s))) \<and>
   ((\<forall>e \<in> set ents. ent_tok e \<noteq> [] \<and> names_one_field e) \<longrightarrow>
      map_entities (initial_task ic ec cc) ents =
        Inr (mk_task (first_match ''TITLE'' ents) PNone (first_match ''ASSIGNEE'' ents)
               (first_match ''DEADLINE'' ents) (first_match ''PRIORITY'' ents)
               (PDict [(''intent_confidence'', ic), (''entity_confidence'', ec),
                       (''combined_confidence'', cc)])))"
proof (intro conjI allI impI)
  fix xs e ys
  assume "ents = xs @ e # ys"
  show "\<exists>t a dl p.
         map_entities (initial_task ic ec cc) xs =
           Inr (mk_task t PNone a dl p
                  (PDict [(''intent_confidence'', ic), (''entity_confidence'', ec),
                          (''combined_confidence'', cc)])) \<and>
         str_or_none t \<and> str_or_none a \<and> str_or_none dl \<and> str_or_none p \<and>
         map_entities (initial_task ic ec cc) (xs @ [e]) =
           Inr (if py_in ''TITLE'' (ent_label e) \<and> (t = PNone \<or> t = PStr [])
                then mk_task (PStr (ent_tok e)) PNone a dl p
                       (PDict [(''intent_confidence'', ic), (''entity_confidence'', ec),
                               (''combined_confidence'', cc)])
                else if py_in ''ASSIGNEE'' (ent_label e) \<and> (a = PNone \<or> a = PStr [])
                then mk_task t PNone (PStr (ent_tok e)) dl p
                       (PDict [(''intent_confidence'', ic), (''entity_confidence'', ec),
                               (''combined_confidence'', cc)])
                else if py_in ''DEADLINE'' (ent_label e) \<and> (dl = PNone \<or> dl = PStr [])
                then mk_task t PNone a (PStr (ent_tok e)) p
                       (PDict [(''intent_confidence'', ic), (''entity_confidence'', ec),
                               (''combined_confidence'', cc)])
                else if py_in ''PRIORITY'' (ent_label e) \<and> (p = PNone \<or> p = PStr [])
                then mk_task t PNone a dl (PStr (ent_tok e))
                       (PDict [(''intent_confidence'', ic), (''entity_confidence'', ec),
                               (''combined_confidence'', cc)])
                else mk_task t PNone a dl p
                       (PDict [(''intent_confidence'', ic), (''entity_confidence'', ec),
                               (''combined_confidence'', cc)]))"
    by (rule mapping_step_rule)
next
  fix xs ys task key s
  assume "ents = xs @ ys \<and> map_entities (initial_task ic ec cc) xs = Inr task \<and>
      map_of task key = Some (PStr s) \<and> s \<noteq> []"
  then show "\<exists>task'. map_entities (initial_task ic ec cc) ents = Inr task' \<and>
         map_of task' key = Some (PStr s)"
    using filled_field_stays [of ic ec cc xs task key s ys] by blast
next
  assume h: "\<forall>e \<in> set ents. ent_tok e \<noteq> [] \<and> names_one_field e"
  have u: "unset_or_text PNone" by (simp add: unset_or_text_def)
  from map_entities_first_match_gen [OF h u u u u]
  show "map_entities (initial_task ic ec cc) ents =
        Inr (mk_task (first_match ''TITLE'' ents) PNone (first_match ''ASSIGNEE'' ents)
               (first_match ''DEADLINE'' ents) (first_match ''PRIORITY'' ents)
               (PDict [(''intent_confidence'', ic), (''entity_confidence'', ec),
                       (''combined_confidence'', cc)]))"
    by (simp add: initial_task_mk settle_def)
qed

lemmas entity_defs = map_entity_def field_wanted_def getitem_def setitem_def get_or_def
  upper_def char_upper_def ent_label_def ent_tok_def first_match_def Let_def

lemma alice_labels:
  "map ent_label alice_friday = [''B-ASSIGNEE'', ''B-DEADLINE'', ''B-ASSIGNEE'', ''B-PRIORITY'']"
  "map ent_tok alice_friday = [''Alice'', ''Friday'', ''Bob'', ''high'']"
  by (simp_all add: alice_friday_def ent_label_def ent_tok_def upper_def char_upper_def get_or_def)

lemma alice_split:
  "\<exists>e1 e2 e3 e4. alice_friday = [e1, e2, e3, e4] \<and>
     ent_label e1 = ''B-ASSIGNEE'' \<and> ent_label e2 = ''B-DEADLINE'' \<and>
     ent_label e3 = ''B-ASSIGNEE'' \<and> ent_label e4 = ''B-PRIORITY'' \<and>
     ent_tok e1 = ''Alice'' \<and> ent_tok e2 = ''Friday'' \<and> ent_tok e3 = ''Bob'' \<and> ent_tok e4 = ''high''"
  using alice_labels by (simp add: alice_friday_def)

text \<open>
  Four entities with non-empty tokens and one field name each. After \<open>Alice\<close> and
  \<open>Friday\<close> the third entity, a second assignee \<open>Bob\<close>, finds the assignee filled and
  changes nothing; the assignee is still \<open>Alice\<close> at the end, and every field holds
  the token of its first match.
\<close>

theorem field_mapping_first_match_wins_witness:
  "map ent_tok alice_friday = [''Alice'', ''Friday'', ''Bob'', ''high''] \<and>
   list_all names_one_field alice_friday \<and>
   map_entities (initial_task (9 / 10) (3 / 4) (33 / 40)) alice_friday =
     Inr (mk_task PNone PNone (PStr ''Alice'') (PStr ''Friday'') (PStr ''high'')
            (PDict [(''intent_confidence'', 9 / 10), (''entity_confidence'', 3 / 4),
                    (''combined_confidence'', 33 / 40)])) \<and>
   first_match ''ASSIGNEE'' alice_friday = PStr ''Alice'' \<and>
   alice_friday = take 2 alice_friday @ alice_friday ! 2 # drop 3 alice_friday \<and>
   ent_label (alice_friday ! 2) = ''B-ASSIGNEE'' \<and> ent_tok (alice_friday ! 2) = ''Bob'' \<and>
   map_entities (initial_task (9 / 10) (3 / 4) (33 / 40)) (take 2 alice_friday) =
     Inr (mk_task PNone PNone (PStr ''Alice'') (PStr ''Friday'') PNone
            (PDict [(''intent_confidence'', 9 / 10), (''entity_confidence'', 3 / 4),
                    (''combined_confidence'', 33 / 40)])) \<and>
   map_entities (initial_task (9 / 10) (3 / 4) (33 / 40)) (take 2 alice_friday @ [alice_friday ! 2]) =
     Inr (mk_task PNone PNone (PStr ''Alice'') (PStr ''Friday'') PNone
            (PDict [(''intent_confidence'', 9 / 10), (''entity_confidence'', 3 / 4),
                    (''combined_confidence'', 33 / 40)])) \<and>
   map_of (mk_task PNone PNone (PStr ''Alice'') (PStr ''Friday'') PNone
            (PDict [(''intent_confidence'', 9 / 10), (''entity_confidence'', 3 / 4),
                    (''combined_confidence'', 33 / 40)])) ''assignee'' = Some (PStr ''Alice'') \<and>
   map_of (mk_task PNone PNone (PStr ''Alice'') (PStr ''Friday'') (PStr ''high'')
            (PDict [(''intent_confidence'', 9 / 10), (''entity_confidence'', 3 / 4),
                    (''combined_confidence'', 33 / 40)])) ''assignee'' = Some (PStr ''Alice'')"
proof -
  let ?cs = "PDict [(''intent_confidence'', 9 / 10), (''entity_confidence'', 3 / 4),
                    (''combined_confidence'', 33 / 40)]"
  let ?init = "initial_task (9 / 10) (3 / 4) (33 / 40)"
  let ?t2 = "mk_task PNone PNone (PStr ''Alice'') (PStr ''Friday'') PNone ?cs"
  let ?t4 = "mk_task PNone PNone (PStr ''Alice'') (PStr ''Friday'') (PStr ''high'') ?cs"
  from alice_split obtain e1 e2 e3 e4 where a: "alice_friday = [e1, e2, e3, e4]"
    and l: "ent_label e1 = ''B-ASSIGNEE''" "ent_label e2 = ''B-DEADLINE''"
      "ent_label e3 = ''B-ASSIGNEE''" "ent_label e4 = ''B-PRIORITY''"
    and t: "ent_tok e1 = ''Alice''" "ent_tok e2 = ''Friday''" "ent_tok e3 = ''Bob''" "ent_tok e4 = ''high''"
    by blast
  have tk: "take 2 alice_friday = [e1, e2]" "alice_friday ! 2 = e3" "drop 3 alice_friday = [e4]"
    by (simp_all add: a)
  note rl = field_mapping_first_match_wins [of alice_friday "9 / 10" "3 / 4" "33 / 40"]
  note r1 = rl [THEN conjunct1, rule_format]
  note r2 = rl [THEN conjunct2, THEN conjunct1, rule_format]
  note r3 = rl [THEN conjunct2, THEN conjunct2, THEN mp]
  have h: "\<forall>e \<in> set alice_friday. ent_tok e \<noteq> [] \<and> names_one_field e"
    by (simp add: a l t names_one_field_def field_names_def)
  have fm: "first_match ''TITLE'' alice_friday = PNone" "first_match ''ASSIGNEE'' alice_friday = PStr ''Alice''"
    "first_match ''DEADLINE'' alice_friday = PStr ''Friday''" "first_match ''PRIORITY'' alice_friday = PStr ''high''"
    by (simp_all add: a first_match_def l t)
  have c1: "map ent_tok alice_friday = [''Alice'', ''Friday'', ''Bob'', ''high'']"
    by (rule alice_labels(2))
  have c2: "list_all names_one_field alice_friday"
    using h by (simp add: list_all_iff)
  have c3: "map_entities ?init alice_friday = Inr ?t4"
    using r3 [OF h] by (simp only: fm)
  have c4: "first_match ''ASSIGNEE'' alice_friday = PStr ''Alice''" by (rule fm(2))
  have c5: "alice_friday = take 2 alice_friday @ alice_friday ! 2 # drop 3 alice_friday"
    by (simp add: a)
  have c6: "ent_label (alice_friday ! 2) = ''B-ASSIGNEE''" "ent_tok (alice_friday ! 2) = ''Bob''"
    by (simp_all only: tk l t)
  have m2: "map_entities ?init [e1, e2] = Inr ?t2"
    by (simp add: initial_task_mk map_entity_mk l t)
  have c7: "map_entities ?init (take 2 alice_friday) = Inr ?t2"
    by (simp only: tk m2)
  from r1 [OF c5] obtain tt aa dl pp where
    pre: "map_entities ?init (take 2 alice_friday) = Inr (mk_task tt PNone aa dl pp ?cs)"
    and st: "map_entities ?init (take 2 alice_friday @ [alice_friday ! 2]) =
           Inr (if py_in ''TITLE'' (ent_label (alice_friday ! 2)) \<and> (tt = PNone \<or> tt = PStr [])
                then mk_task (PStr (ent_tok (alice_friday ! 2))) PNone aa dl pp ?cs
                else if py_in ''ASSIGNEE'' (ent_label (alice_friday ! 2)) \<and> (aa = PNone \<or> aa = PStr [])
                then mk_task tt PNone (PStr (ent_tok (alice_friday ! 2))) dl pp ?cs
                else if py_in ''DEADLINE'' (ent_label (alice_friday ! 2)) \<and> (dl = PNone \<or> dl = PStr [])
                then mk_task tt PNone aa (PStr (ent_tok (alice_friday ! 2))) pp ?cs
                else if py_in ''PRIORITY'' (ent_label (alice_friday ! 2)) \<and> (pp = PNone \<or> pp = PStr [])
                then mk_task tt PNone aa dl (PStr (ent_tok (alice_friday ! 2))) ?cs
                else mk_task tt PNone aa dl pp ?cs)"
    by blast
  from pre [unfolded c7] have eqs: "tt = PNone" "aa = PStr ''Alice''" "dl = PStr ''Friday''" "pp = PNone"
    by (simp_all add: mk_task_def)
  have pyin: "\<not> py_in ''TITLE'' ''B-ASSIGNEE''" "py_in ''ASSIGNEE'' ''B-ASSIGNEE''"
    "\<not> py_in ''DEADLINE'' ''B-ASSIGNEE''" "\<not> py_in ''PRIORITY'' ''B-ASSIGNEE''"
    by simp_all
  have c8: "map_entities ?init (take 2 alice_friday @ [alice_friday ! 2]) = Inr ?t2"
    using st unfolding c6 eqs by (simp add: pyin)
  have c9: "map_of ?t2 ''assignee'' = Some (PStr ''Alice'')"
    by (simp add: mk_task_def)
  have sp: "alice_friday = take 2 alice_friday @ drop 2 alice_friday" by simp
  have ne: "''Alice'' \<noteq> []" by simp
  from r2 [OF conjI [OF sp conjI [OF c7 conjI [OF c9 ne]]]]
  obtain task' where "map_entities ?init alice_friday = Inr task'"
    and "map_of task' ''assignee'' = Some (PStr ''Alice'')"
    by blast
  then have c10: "map_of ?t4 ''assignee'' = Some (PStr ''Alice'')"
    unfolding c3 by simp
  show ?thesis
    by (intro conjI) (fact c1 c2 c3 c4 c5 c6 c7 c8 c9 c10)+
qed

text \<open>
  Claim C8 as stated fails. A first \<open>TITLE\<close> entity with an empty token sets the title to
  the empty string, and the next \<open>TITLE\<close> entity overwrites it: the title is not the token
  of the first match. And an entity whose label names two fields is the first match of
  both, but fills only the first of them that is still unset.
\<close>

theorem field_overwritten_counterexample:
  "map_entities (initial_task 1 1 1)
     [\<lparr>ent_entity = Some ''TITLE'', ent_token = Some [], ent_confidence = 1\<rparr>] =
     Inr (mk_task (PStr []) PNone PNone PNone PNone
            (PDict [(''intent_confidence'', 1), (''entity_confidence'', 1), (''combined_confidence'', 1)])) \<and>
   map_entities (initial_task 1 1 1)
     [\<lparr>ent_entity = Some ''TITLE'', ent_token = Some [], ent_confidence = 1\<rparr>,
      \<lparr>ent_entity = Some ''TITLE'', ent_token = Some ''Report'', ent_confidence = 1\<rparr>] =
     Inr (mk_task (PStr ''Report'') PNone PNone PNone PNone
            (PDict [(''intent_confidence'', 1), (''entity_confidence'', 1), (''combined_confidence'', 1)])) \<and>
   first_match ''TITLE''
     [\<lparr>ent_entity = Some ''TITLE'', ent_token = Some [], ent_confidence = 1\<rparr>,
      \<lparr>ent_entity = Some ''TITLE'', ent_token = Some ''Report'', ent_confidence = 1\<rparr>] = PStr [] \<and>
   map_entities (initial_task 1 1 1)
     [\<lparr>ent_entity = Some ''TITLE-ASSIGNEE'', ent_token = Some ''Ann'', ent_confidence = 1\<rparr>,
      \<lparr>ent_entity = Some ''ASSIGNEE'', ent_token = Some ''Bob'', ent_confidence = 1\<rparr>] =
     Inr (mk_task (PStr ''Ann'') PNone (PStr ''Bob'') PNone PNone
            (PDict [(''intent_confidence'', 1), (''entity_confidence'', 1), (''combined_confidence'', 1)])) \<and>
   first_match ''ASSIGNEE''
     [\<lparr>ent_entity = Some ''TITLE-ASSIGNEE'', ent_token = Some ''Ann'', ent_confidence = 1\<rparr>,
      \<lparr>ent_entity = Some ''ASSIGNEE'', ent_token = Some ''Bob'', ent_confidence = 1\<rparr>] = PStr ''Ann''"
proof -
  have l: "ent_label \<lparr>ent_entity = Some ''TITLE'', ent_token = Some [], ent_confidence = 1\<rparr> = ''TITLE''"
    "ent_label \<lparr>ent_entity = Some ''TITLE'', ent_token = Some ''Report'', ent_confidence = 1\<rparr> = ''TITLE''"
    "ent_tok \<lparr>ent_entity = Some ''TITLE'', ent_token = Some [], ent_confidence = 1\<rparr> = []"
    "ent_tok \<lparr>ent_entity = Some ''TITLE'', ent_token = Some ''Report'', ent_confidence = 1\<rparr> = ''Report''"
    "ent_label \<lparr>ent_entity = Some ''TITLE-ASSIGNEE'', ent_token = Some ''Ann'', ent_confidence = 1\<rparr>
       = ''TITLE-ASSIGNEE''"
    "ent_label \<lparr>ent_entity = Some ''ASSIGNEE'', ent_token = Some ''Bob'', ent_confidence = 1\<rparr> = ''ASSIGNEE''"
    "ent_tok \<lparr>ent_entity = Some ''TITLE-ASSIGNEE'', ent_token = Some ''Ann'', ent_confidence = 1\<rparr> = ''Ann''"
    "ent_tok \<lparr>ent_entity = Some ''ASSIGNEE'', ent_token = Some ''Bob'', ent_confidence = 1\<rparr> = ''Bob''"
    by (simp_all add: ent_label_def ent_tok_def upper_def char_upper_def get_or_def)
  show ?thesis
    by (simp add: initial_task_mk map_entity_mk l first_match_def)
qed

section \<open>Caching in \<open>extract_task\<close>\<close>

lemma map_of_delete_append:
  "map_of (AList.delete key m @ [(key, v)]) key = Some v"
  by (simp add: map_add_def AList.delete_conv)

lemma LRUCache_get_after:
  "LRUCache_get c key = (Some v, c') \<Longrightarrow> map_of (cache_map c') key = Some v"
  by (auto simp: LRUCache_get_def map_of_delete_append simp del: map_of_append split: option.splits)

lemma LRUCache_set_after:
  assumes "LRUCache_set c key v = Inr c'"
  shows "map_of (cache_map c') key = Some v"
proof (cases "key \<in> fst ` set (cache_map c)")
  case True
  with assms show ?thesis
    by (auto simp: LRUCache_set_def map_of_delete_append simp del: map_of_append)
next
  case False
  then have n: "map_of (cache_map c) key = None" by (simp add: map_of_eq_None_iff)
  have n': "map_of rest key = None" if "cache_map c = y # rest" for y rest
    using False that by (auto simp: map_of_eq_None_iff)
  show ?thesis
    using assms False n n'
    by (auto simp: LRUCache_set_def map_add_def split: if_splits list.splits)
qed

lemma extract_task_cached:
  assumes "map_of (cache_map (cache self)) (cache_key_of fmt text) = Some r"
  shows "extract_task self text fmt True =
           (self\<lparr>cache := (cache self)\<lparr>cache_map :=
                AList.delete (cache_key_of fmt text) (cache_map (cache self)) @ [(cache_key_of fmt text, r)]\<rparr>\<rparr>,
            [], Inr r)"
  using assms by (simp add: extract_task_def LRUCache_get_def Let_def)

lemma extract_task_stores:
  assumes "extract_task self text fmt True = (self1, calls1, Inr r)"
  shows "map_of (cache_map (cache self1)) (cache_key_of fmt text) = Some r"
proof (cases "map_of (cache_map (cache self)) (cache_key_of fmt text)")
  case (Some v)
  from extract_task_cached [OF Some] assms show ?thesis
    by (auto simp: map_of_delete_append simp del: map_of_append)
next
  case None
  then have g: "LRUCache_get (cache self) (cache_key_of fmt text) = (None, cache self)"
    by (simp add: LRUCache_get_def)
  obtain calls out where rp: "run_pipeline self text fmt = (calls, out)"
    by (cases "run_pipeline self text fmt") auto
  from assms g rp obtain c2 where
    "LRUCache_set (cache self) (cache_key_of fmt text) r = Inr c2" "self1 = self\<lparr>cache := c2\<rparr>"
    by (cases out) (auto simp: extract_task_def Let_def split: sum.splits)
  with LRUCache_set_after show ?thesis by fastforce
qed

lemma extract_task_failed:
  assumes "extract_task self text fmt True = (self1, calls1, Inl e)"
  shows "self1 = self"
proof (cases "map_of (cache_map (cache self)) (cache_key_of fmt text)")
  case (Some v)
  from extract_task_cached [OF Some] assms show ?thesis by simp
next
  case None
  then have g: "LRUCache_get (cache self) (cache_key_of fmt text) = (None, cache self)"
    by (simp add: LRUCache_get_def)
  obtain calls out where rp: "run_pipeline self text fmt = (calls, out)"
    by (cases "run_pipeline self text fmt") auto
  from assms g rp show ?thesis
    by (cases out) (auto simp: extract_task_def Let_def split: sum.splits)
qed

text \<open>
  Claim C7. With the collaborators fixed, a second \<open>extract_task(t, fmt, use_cache=True)\<close>
  right after a first one has the outcome of the first. When the first call returns a
  result, that result is stored in the cache under the key of \<open>(fmt, t)\<close> when the call
  ends, and the second call is a cache hit: it makes no collaborator call and returns the
  stored result unchanged. When the first call raises, the second raises the same.
\<close>

theorem extract_task_twice_identical:
  assumes "extract_task self text fmt True = (self1, calls1, out)"
  shows "\<exists>self2 calls2.
           extract_task self1 text fmt True = (self2, calls2, out) \<and>
           (\<forall>r. out = Inr r \<longrightarrow>
              map_of (cache_map (cache self1)) (cache_key_of fmt text) = Some r \<and> calls2 = [])"
proof (cases out)
  case (Inl e)
  with assms extract_task_failed [of self "text" fmt self1 calls1 e] show ?thesis by auto
next
  case (Inr r)
  note a = assms [unfolded Inr]
  from extract_task_stores [OF a]
  have st: "map_of (cache_map (cache self1)) (cache_key_of fmt text) = Some r" .
  from extract_task_cached [OF st] Inr st show ?thesis by auto
qed

text \<open>The request of scenario A, twice: computed, then served from the cache.\<close>

theorem extract_task_twice_identical_witness:
  "extract_task (demo_extractor sure_classifier alice_recognizer) alice_text ''email'' True =
     ((demo_extractor sure_classifier alice_recognizer)
        \<lparr>cache := \<lparr>capacity = 100, cache_map = [(cache_key_of ''email'' alice_text, alice_result)]\<rparr>\<rparr>,
      [Classify alice_text, ExtractEntities alice_text], Inr alice_result) \<and>
   snd (extract_task ((demo_extractor sure_classifier alice_recognizer)
        \<lparr>cache := \<lparr>capacity = 100, cache_map = [(cache_key_of ''email'' alice_text, alice_result)]\<rparr>\<rparr>)
        alice_text ''email'' True) = ([], Inr alice_result)"
  using extract_task_twice_identical [OF alice_extract] alice_extract
  by auto

section \<open>Empty text\<close>

lemma sub_html_tags_id: "CHR ''<'' \<notin> set s \<Longrightarrow> sub_html_tags s = s"
  by (induction s) auto

lemma sub_quote_markers_id: "CHR ''>'' \<notin> set s \<Longrightarrow> sub_quote_markers b s = s"
  by (induction s arbitrary: b) auto

lemma sub_html_entities_id: "CHR ''&'' \<notin> set s \<Longrightarrow> sub_html_entities s = s"
  by (induction s) auto

lemma blank_chars:
  assumes "blank s"
  shows "CHR ''<'' \<notin> set s" "CHR ''>'' \<notin> set s" "CHR ''&'' \<notin> set s"
  using assms by (auto simp: blank_def list_all_iff is_space_def)

lemma dropWhile_blank: "blank s \<Longrightarrow> dropWhile is_space s = []"
  by (simp add: blank_def list_all_iff)

lemma strip_blank: "blank s \<Longrightarrow> strip s = []"
  by (simp add: strip_def dropWhile_blank)

lemma sub_runs_blank: "blank s \<Longrightarrow> sub_runs is_space '' '' s = (if s = [] then [] else '' '')"
  by (cases s) (auto simp: blank_def dropWhile_blank list_all_iff)

lemma remove_html_tags_blank: "blank s \<Longrightarrow> remove_html_tags s = []"
  by (simp add: remove_html_tags_def sub_html_tags_id sub_quote_markers_id sub_html_entities_id
      blank_chars sub_runs_blank strip_blank blank_def is_space_def Let_def)

lemma clean_text_blank:
  assumes "blank s" and "opt_lowercase options = Some False"
  shows "clean_text s options = []"
proof -
  have f: "foldl (\<lambda>t ch. remove_all_sub ch t) [] l = []" for l
    by (induction l) auto
  show ?thesis
    using assms
    by (simp add: clean_text_def remove_html_tags_blank normalize_whitespace_def
        standardize_punctuation_def strip_def f Let_def)
qed

text \<open>
  Claim C4, as amended. \<open>extract_task\<close> has no input check of its own. For an empty or
  whitespace-only text with no cached result under its key, it cleans the text to the
  empty string and calls the intent classifier with it; the classifier's own input
  validation raises \<open>ValueError\<close> before any model inference, the exception leaves
  \<open>extract_task\<close> as it is, the recogniser is never called and nothing is cached.
\<close>

theorem blank_text_rejected_by_classifier:
  assumes "blank text"
    and "intent_classifier self = BERTClassifier_classify bert_model"
    and "use_cache \<longrightarrow> map_of (cache_map (cache self)) (cache_key_of fmt text) = None"
  shows "extract_task self text fmt use_cache =
           (self, [Classify []], Inl (ValueError ''Text must be a non-empty string for classification.''))"
proof -
  have c: "clean_text text (preprocessing_opts fmt) = []"
    using assms(1) by (simp add: clean_text_blank preprocessing_opts_def)
  have rp: "run_pipeline self text fmt =
      ([Classify []], Inl (ValueError ''Text must be a non-empty string for classification.''))"
    by (simp add: run_pipeline_def c assms(2) BERTClassifier_classify_def strip_def)
  have g: "(if use_cache then LRUCache_get (cache self) (cache_key_of fmt text) else (None, cache self))
        = (None, cache self)"
    using assms(3) by (simp add: LRUCache_get_def)
  show ?thesis
    by (simp add: extract_task_def g rp Let_def)
qed

text \<open>Two spaces, on a fresh extractor with caching on.\<close>

theorem blank_text_rejected_by_classifier_witness:
  "blank ''  '' \<and>
   intent_classifier (TaskExtractor_init demo_bert demo_ner (3 / 5) 100 :: extraction_result TaskExtractor)
     = BERTClassifier_classify demo_bert \<and>
   map_of (cache_map (cache (TaskExtractor_init demo_bert demo_ner (3 / 5) 100 :: extraction_result TaskExtractor)))
      (cache_key_of ''chat'' ''  '') = None \<and>
   extract_task (TaskExtractor_init demo_bert demo_ner (3 / 5) 100) ''  '' ''chat'' True =
     (TaskExtractor_init demo_bert demo_ner (3 / 5) 100, [Classify []],
      Inl (ValueError ''Text must be a non-empty string for classification.''))"
proof -
  have b: "blank ''  ''" by (simp add: blank_def is_space_def)
  have i: "intent_classifier (TaskExtractor_init demo_bert demo_ner (3 / 5) 100 :: extraction_result TaskExtractor)
     = BERTClassifier_classify demo_bert" by (simp add: TaskExtractor_init_def)
  have m: "True \<longrightarrow> map_of (cache_map (cache (TaskExtractor_init demo_bert demo_ner (3 / 5) 100 :: extraction_result TaskExtractor)))
      (cache_key_of ''chat'' ''  '') = None"
    by (simp add: TaskExtractor_init_def LRUCache_init_def)
  have m': "map_of (cache_map (cache (TaskExtractor_init demo_bert demo_ner (3 / 5) 100 :: extraction_result TaskExtractor)))
      (cache_key_of ''chat'' ''  '') = None"
    using m by simp
  from blank_text_rejected_by_classifier [OF b i m] b i m' show ?thesis by blast
qed

text \<open>
  Claim C4 as stated fails in its second half: on \<open>extract_task("", "chat", True)\<close> the
  classifier is called, and the exception raised is the one of its input check.
\<close>

theorem empty_text_reaches_classifier_counterexample:
  "fst (snd (extract_task (TaskExtractor_init demo_bert demo_ner (3 / 5) 100) [] ''chat'' True))
     = [Classify []] \<and>
   fst (snd (extract_task (TaskExtractor_init demo_bert demo_ner (3 / 5) 100) [] ''chat'' True)) \<noteq> [] \<and>
   snd (snd (extract_task (TaskExtractor_init demo_bert demo_ner (3 / 5) 100) [] ''chat'' True))
     = Inl (ValueError ''Text must be a non-empty string for classification.'')"
  by (simp add: extract_task_def run_pipeline_def TaskExtractor_init_def LRUCache_init_def
      LRUCache_get_def BERTClassifier_classify_def strip_def clean_text_def preprocessing_opts_def
      remove_html_tags_def normalize_whitespace_def standardize_punctuation_def Let_def)

section \<open>Aliasing between the cache and the caller\<close>

lemma extract_task_obj_cached:
  assumes "map_of (cache_map (cache self)) (cache_key_of fmt text) = Some a"
  shows "extract_task_obj self store text fmt True =
           (self\<lparr>cache := (cache self)\<lparr>cache_map :=
                AList.delete (cache_key_of fmt text) (cache_map (cache self)) @ [(cache_key_of fmt text, a)]\<rparr>\<rparr>,
            store, [], Inr a)"
  using assms by (simp add: extract_task_obj_def LRUCache_get_def Let_def)

lemma extract_task_obj_stores:
  assumes "extract_task_obj self store text fmt True = (self1, store1, calls1, Inr a)"
    and "cached_objects_exist self store"
  shows "map_of (cache_map (cache self1)) (cache_key_of fmt text) = Some a \<and> a < length store1"
proof (cases "map_of (cache_map (cache self)) (cache_key_of fmt text)")
  case (Some v)
  then have "(cache_key_of fmt text, v) \<in> set (cache_map (cache self))" by (rule map_of_SomeD)
  then have "v < length store" using assms(2) by (auto simp: cached_objects_exist_def list_all_iff)
  with extract_task_obj_cached [OF Some, of store] assms(1) show ?thesis
    by (auto simp: map_of_delete_append simp del: map_of_append)
next
  case None
  then have g: "LRUCache_get (cache self) (cache_key_of fmt text) = (None, cache self)"
    by (simp add: LRUCache_get_def)
  obtain calls out where rp: "run_pipeline self text fmt = (calls, out)"
    by (cases "run_pipeline self text fmt") auto
  from assms(1) g rp obtain c2 where
    "LRUCache_set (cache self) (cache_key_of fmt text) a = Inr c2" "self1 = self\<lparr>cache := c2\<rparr>"
    "a = length store" "\<exists>r. store1 = store @ [r]"
    by (cases out) (auto simp: extract_task_obj_def Let_def split: sum.splits)
  with LRUCache_set_after show ?thesis by fastforce
qed

text \<open>
  Claim C9, as amended. The cache stores no copy: what \<open>extract_task\<close> puts into the
  cache and what it returns is one and the same dictionary object. After a call with
  \<open>use_cache=True\<close> has returned the object at address \<open>a\<close>, whatever the caller
  writes into that object, a following call for the same text and format is a cache hit
  that makes no collaborator call and returns the same address \<open>a\<close>, so it shows the
  caller's changes.
\<close>

theorem cached_result_is_the_returned_object:
  assumes "extract_task_obj self store text fmt True = (self1, store1, calls1, Inr a)"
    and "cached_objects_exist self store"
  shows "a < length store1 \<and>
         (\<forall>v. \<exists>self2. extract_task_obj self1 (store1[a := v]) text fmt True
                  = (self2, store1[a := v], [], Inr a) \<and>
                (store1[a := v]) ! a = v)"
proof -
  from extract_task_obj_stores [OF assms]
  have st: "map_of (cache_map (cache self1)) (cache_key_of fmt text) = Some a" and a: "a < length store1"
    by simp_all
  from extract_task_obj_cached [OF st] a show ?thesis by auto
qed

lemma alice_extract_obj:
  "extract_task_obj (demo_extractor sure_classifier alice_recognizer) [] alice_text ''email'' True =
     ((demo_extractor sure_classifier alice_recognizer)
        \<lparr>cache := \<lparr>capacity = 100, cache_map = [(cache_key_of ''email'' alice_text, 0)]\<rparr>\<rparr>,
      [alice_result], [Classify alice_text, ExtractEntities alice_text], Inr 0)"
  by (simp add: extract_task_obj_def run_pipeline_def alice_clean alice_build demo_extractor_def
      sure_classifier_def alice_recognizer_def LRUCache_init_def LRUCache_get_def LRUCache_set_def
      cache_key_of_def Let_def)

text \<open>The caller edits the error message of the returned dictionary; the next call returns the edited one.\<close>

theorem cached_result_is_the_returned_object_witness:
  "extract_task_obj (demo_extractor sure_classifier alice_recognizer) [] alice_text ''email'' True =
     ((demo_extractor sure_classifier alice_recognizer)
        \<lparr>cache := \<lparr>capacity = 100, cache_map = [(cache_key_of ''email'' alice_text, 0)]\<rparr>\<rparr>,
      [alice_result], [Classify alice_text, ExtractEntities alice_text], Inr 0) \<and>
   cached_objects_exist (demo_extractor sure_classifier alice_recognizer) [] \<and>
   (0::nat) < length [alice_result] \<and>
   fst (snd (extract_task_obj ((demo_extractor sure_classifier alice_recognizer)
        \<lparr>cache := \<lparr>capacity = 100, cache_map = [(cache_key_of ''email'' alice_text, 0)]\<rparr>\<rparr>)
        ([alice_result][0 := alice_result\<lparr>err_msg := ''edited by the caller''\<rparr>]) alice_text ''email'' True))
     = [alice_result\<lparr>err_msg := ''edited by the caller''\<rparr>]"
proof -
  have c: "cached_objects_exist (demo_extractor sure_classifier alice_recognizer) []"
    by (simp add: cached_objects_exist_def demo_extractor_def LRUCache_init_def)
  from cached_result_is_the_returned_object [OF alice_extract_obj c]
  obtain self2 where
    "extract_task_obj ((demo_extractor sure_classifier alice_recognizer)
        \<lparr>cache := \<lparr>capacity = 100, cache_map = [(cache_key_of ''email'' alice_text, 0)]\<rparr>\<rparr>)
        ([alice_result][0 := alice_result\<lparr>err_msg := ''edited by the caller''\<rparr>]) alice_text ''email'' True
      = (self2, [alice_result][0 := alice_result\<lparr>err_msg := ''edited by the caller''\<rparr>], [], Inr 0)"
    by blast
  with alice_extract_obj c show ?thesis by simp
qed

lemma alice_hit_obj:
  "extract_task_obj ((demo_extractor sure_classifier alice_recognizer)
        \<lparr>cache := \<lparr>capacity = 100, cache_map = [(cache_key_of ''email'' alice_text, 0)]\<rparr>\<rparr>)
        store alice_text ''email'' True =
     ((demo_extractor sure_classifier alice_recognizer)
        \<lparr>cache := \<lparr>capacity = 100, cache_map = [(cache_key_of ''email'' alice_text, 0)]\<rparr>\<rparr>,
      store, [], Inr 0)"
  by (simp add: extract_task_obj_def LRUCache_get_def Let_def)

text \<open>
  Claim C9 as stated fails: the caller sets \<open>valid\<close> to false in the dictionary that the
  first call returned, and the cache hit of the second call returns a dictionary that
  differs from the result first computed.
\<close>

theorem cache_copy_counterexample:
  "extract_task_obj (demo_extractor sure_classifier alice_recognizer) [] alice_text ''email'' True =
     ((demo_extractor sure_classifier alice_recognizer)
        \<lparr>cache := \<lparr>capacity = 100, cache_map = [(cache_key_of ''email'' alice_text, 0)]\<rparr>\<rparr>,
      [alice_result], [Classify alice_text, ExtractEntities alice_text], Inr 0) \<and>
   extract_task_obj ((demo_extractor sure_classifier alice_recognizer)
        \<lparr>cache := \<lparr>capacity = 100, cache_map = [(cache_key_of ''email'' alice_text, 0)]\<rparr>\<rparr>)
        ([alice_result][0 := alice_result\<lparr>valid := False\<rparr>]) alice_text ''email'' True =
     ((demo_extractor sure_classifier alice_recognizer)
        \<lparr>cache := \<lparr>capacity = 100, cache_map = [(cache_key_of ''email'' alice_text, 0)]\<rparr>\<rparr>,
      [alice_result\<lparr>valid := False\<rparr>], [], Inr 0) \<and>
   [alice_result\<lparr>valid := False\<rparr>] ! 0 \<noteq> alice_result"
  by (simp add: alice_extract_obj alice_hit_obj alice_result_def)

section \<open>Batches of extractions\<close>

subsection \<open>Chunks\<close>

lemma chunk_start_in_range:
  assumes "0 < sz" and "k < (length seq + sz - 1) div sz"
  shows "k * sz < length seq"
proof -
  have "Suc k \<le> (length seq + sz - 1) div sz" using assms(2) by simp
  then have "Suc k * sz \<le> length seq + sz - 1"
    using assms(1) by (simp add: less_eq_div_iff_mult_less_eq)
  then show ?thesis using assms(1) by simp
qed

lemma chunk_covers:
  assumes "0 < sz" and "i < length seq"
  shows "i div sz < (length seq + sz - 1) div sz"
proof -
  have "i div sz * sz \<le> i" by simp
  have "Suc (i div sz) * sz \<le> length seq + sz - 1"
  proof -
    have "i div sz * sz + sz \<le> i + sz" by simp
    also have "\<dots> \<le> length seq + sz - 1" using assms by simp
    finally show ?thesis by simp
  qed
  then have "Suc (i div sz) \<le> (length seq + sz - 1) div sz"
    using assms(1) by (simp add: less_eq_div_iff_mult_less_eq)
  then show ?thesis by simp
qed

lemma length_chunker [simp]: "length (chunker seq sz) = (length seq + sz - 1) div sz"
  by (simp add: chunker_def)

lemma nth_chunker:
  "k < (length seq + sz - 1) div sz \<Longrightarrow> chunker seq sz ! k = (k * sz, take sz (drop (k * sz) seq))"
  by (simp add: chunker_def)

subsection \<open>One worker\<close>

lemma batch_worker_loop_Inr:
  assumes "batch_worker_loop item start ps = Inr out"
  shows "map fst out = map (\<lambda>p. start + fst p) ps \<and>
         (\<forall>j < length ps. item (snd (ps ! j)) = Inr (snd (out ! j)))"
  using assms
proof (induction ps arbitrary: out)
  case Nil
  then show ?case by simp
next
  case (Cons p ps)
  obtain i t where p: "p = (i, t)" by (cases p)
  from Cons.prems p obtain res rest where
    r: "item t = Inr res" and l: "batch_worker_loop item start ps = Inr rest"
    and o: "out = (start + i, res) # rest"
    by (auto split: sum.splits)
  from Cons.IH [OF l] have ih: "map fst rest = map (\<lambda>p. start + fst p) ps"
    "\<forall>j < length ps. item (snd (ps ! j)) = Inr (snd (rest ! j))" by simp_all
  show ?case
    using ih r o p by (auto simp: nth_Cons split: nat.splits)
qed

lemma batch_worker_loop_succeeds:
  assumes "\<forall>p \<in> set ps. \<exists>r. item (snd p) = Inr r"
  shows "\<exists>out. batch_worker_loop item start ps = Inr out"
  using assms
proof (induction ps)
  case Nil
  then show ?case by simp
next
  case (Cons p ps)
  obtain i t where p: "p = (i, t)" by (cases p)
  from Cons.prems p obtain r where "item t = Inr r" by auto
  moreover from Cons obtain out where "batch_worker_loop item start ps = Inr out" by auto
  ultimately show ?case using p by simp
qed

lemma batch_worker_Inr:
  assumes "batch_worker item start chunk = Inr out"
  shows "map fst out = [start..<start + length chunk] \<and>
         (\<forall>j < length chunk. item (chunk ! j) = Inr (snd (out ! j)))"
proof -
  from batch_worker_loop_Inr [OF assms [unfolded batch_worker_def]]
  have a: "map fst out = map (\<lambda>p. start + fst p) (List.enumerate 0 chunk)"
    and b: "\<forall>j < length (List.enumerate 0 chunk). item (snd (List.enumerate 0 chunk ! j)) = Inr (snd (out ! j))"
    by simp_all
  have "map (\<lambda>p. start + fst p) (List.enumerate 0 chunk)
        = map (\<lambda>i. i + start) [0..<length chunk]"
    by (rule nth_equalityI) (simp_all add: nth_enumerate_eq)
  also have "\<dots> = [start..<start + length chunk]"
    by (simp only: map_add_upt add.commute [of start])
  finally have "map fst out = [start..<start + length chunk]" using a by simp
  moreover have "\<forall>j < length chunk. item (chunk ! j) = Inr (snd (out ! j))"
    using b by (simp add: nth_enumerate_eq)
  ultimately show ?thesis by simp
qed

lemma batch_worker_succeeds:
  assumes "\<forall>t \<in> set chunk. \<exists>r. item t = Inr r"
  shows "\<exists>out. batch_worker item start chunk = Inr out"
  unfolding batch_worker_def
  by (rule batch_worker_loop_succeeds) (use assms in \<open>auto simp: enumerate_eq_zip dest: set_zip_rightD\<close>)

subsection \<open>Collecting the futures\<close>

lemma gather_completed_map_Inr: "gather_completed (map Inr outs) = Inr (concat outs)"
  by (induction outs) auto

lemma gather_completed_Inr:
  assumes "gather_completed fs = Inr partial"
  shows "\<exists>outs. fs = map Inr outs \<and> partial = concat outs"
  using assms
proof (induction fs arbitrary: partial)
  case Nil
  then show ?case by auto
next
  case (Cons f fs)
  from Cons.prems obtain out rest where
    f: "f = Inr out" and g: "gather_completed fs = Inr rest" and p: "partial = out @ rest"
    by (auto split: sum.splits)
  from Cons.IH [OF g] obtain outs where o: "fs = map Inr outs" "rest = concat outs" by blast
  have "f # fs = map Inr (out # outs) \<and> partial = concat (out # outs)"
    using f o p by simp
  then show ?case by (rule exI)
qed

subsection \<open>Writing by index\<close>

lemma fill_results_snoc:
  "fill_results init (ps @ [(idx, d)]) = (fill_results init ps)[idx := Some d]"
  by (simp add: fill_results_def)

lemma length_fill_results [simp]: "length (fill_results init ps) = length init"
  by (induction ps rule: rev_induct) (auto simp: fill_results_snoc fill_results_def)

lemma nth_fill_results:
  assumes "i < length init"
  shows "fill_results init ps ! i = (case map_of (rev ps) i of Some d \<Rightarrow> Some d | None \<Rightarrow> init ! i)"
  using assms
proof (induction ps rule: rev_induct)
  case Nil
  then show ?case by (simp add: fill_results_def)
next
  case (snoc p ps)
  obtain idx d where p: "p = (idx, d)" by (cases p)
  show ?case using snoc p by (simp add: fill_results_snoc nth_list_update)
qed

lemma worker_of_chunk:
  assumes "0 < sz" and "k < (length texts + sz - 1) div sz"
    and "map (\<lambda>(start_idx, chunk_texts). batch_worker item start_idx chunk_texts) (chunker texts sz) ! k = Inr out"
  shows "map fst out = [k * sz..<k * sz + min sz (length texts - k * sz)]"
    and "\<forall>p \<in> set out. fst p < length texts \<and> item (texts ! fst p) = Inr (snd p)"
proof -
  let ?chunk = "take sz (drop (k * sz) texts)"
  let ?l = "min sz (length texts - k * sz)"
  have w: "batch_worker item (k * sz) ?chunk = Inr out"
    using assms(2,3) by (simp add: nth_chunker)
  have len: "length ?chunk = ?l" by (simp add: min.commute)
  from batch_worker_Inr [OF w] len
  have f: "map fst out = [k * sz..<k * sz + ?l]"
    and it: "\<forall>j < ?l. item (?chunk ! j) = Inr (snd (out ! j))"
    by simp_all
  show "map fst out = [k * sz..<k * sz + ?l]" by (rule f)
  have lo: "length out = ?l" using f by (metis length_map length_upt add_diff_cancel_left')
  show "\<forall>p \<in> set out. fst p < length texts \<and> item (texts ! fst p) = Inr (snd p)"
  proof
    fix p assume "p \<in> set out"
    then obtain j where j: "j < length out" "out ! j = p" by (auto simp: in_set_conv_nth)
    have "fst p = map fst out ! j" using j by simp
    also have "\<dots> = k * sz + j" using j lo by (simp add: f)
    finally have fp: "fst p = k * sz + j" .
    have jl: "j < ?l" using j lo by simp
    then have inr: "k * sz + j < length texts" by linarith
    have "?chunk ! j = texts ! (k * sz + j)" using jl inr by simp
    with it jl j have "item (texts ! (k * sz + j)) = Inr (snd p)" by auto
    with fp inr show "fst p < length texts \<and> item (texts ! fst p) = Inr (snd p)" by simp
  qed
qed

lemma ranges_disjoint:
  fixes k k' sz x l l' :: nat
  assumes "k \<noteq> k'" and "x \<in> {k * sz..<k * sz + min sz l}" and "x \<in> {k' * sz..<k' * sz + min sz l'}"
  shows False
proof -
  have "0 < sz" using assms(2) by (cases sz) auto
  have "x div sz = k" using assms(2) by (intro div_nat_eqI) (auto simp: mult.commute)
  moreover have "x div sz = k'" using assms(3) by (intro div_nat_eqI) (auto simp: mult.commute)
  ultimately show False using assms(1) by simp
qed

lemma distinct_concat_ranges:
  assumes "distinct ks"
  shows "distinct (concat (map (\<lambda>k. [k * sz..<k * sz + min sz (len k)]) ks))"
  using assms
proof (induction ks)
  case Nil
  then show ?case by simp
next
  case (Cons k ks)
  have "set [k * sz..<k * sz + min sz (len k)] \<inter>
        set (concat (map (\<lambda>k. [k * sz..<k * sz + min sz (len k)]) ks)) = {}"
  proof (rule ccontr)
    assume "\<not> ?thesis"
    then obtain x where x: "x \<in> set [k * sz..<k * sz + min sz (len k)]"
      "x \<in> set (concat (map (\<lambda>k. [k * sz..<k * sz + min sz (len k)]) ks))"
      by blast
    from x(2) obtain k' where k': "k' \<in> set ks" "x \<in> set [k' * sz..<k' * sz + min sz (len k')]"
      by auto
    have "k \<noteq> k'" using Cons.prems k'(1) by auto
    from ranges_disjoint [OF this, of x sz "len k" "len k'"] x(1) k'(2) show False by simp
  qed
  with Cons show ?case by simp
qed

lemma partial_results_shape:
  assumes "0 < sz" and "completion_order completion texts sz"
    and "partial_results_of item completion texts sz = Inr partial"
  shows "\<forall>p \<in> set partial. fst p < length texts \<and> item (texts ! fst p) = Inr (snd p)"
    and "set (map fst partial) = {..<length texts}"
    and "distinct (map fst partial)"
proof -
  let ?m = "(length texts + sz - 1) div sz"
  let ?tasks = "map (\<lambda>(start_idx, chunk_texts). batch_worker item start_idx chunk_texts) (chunker texts sz)"
  let ?len = "\<lambda>k. length texts - k * sz"
  have dc: "distinct completion" and sc: "set completion = {..<?m}"
    using assms(2) by (simp_all add: completion_order_def)
  from assms(3) obtain outs where
    o: "map (\<lambda>k. ?tasks ! k) completion = map Inr outs" and p: "partial = concat outs"
    using gather_completed_Inr unfolding partial_results_of_def Let_def by blast
  have lo: "length outs = length completion" using o by (metis length_map)
  have nth: "?tasks ! (completion ! q) = Inr (outs ! q)" if "q < length completion" for q
  proof -
    have "map (\<lambda>k. ?tasks ! k) completion ! q = map Inr outs ! q" using o by simp
    then show ?thesis using that lo by simp
  qed
  have km: "completion ! q < ?m" if "q < length completion" for q
    using sc that nth_mem by blast
  have f: "map fst (outs ! q) = [completion ! q * sz..<completion ! q * sz + min sz (?len (completion ! q))]"
    if "q < length completion" for q
    using worker_of_chunk(1) [OF assms(1) km [OF that] nth [OF that]] .
  have it: "\<forall>p \<in> set (outs ! q). fst p < length texts \<and> item (texts ! fst p) = Inr (snd p)"
    if "q < length completion" for q
    using worker_of_chunk(2) [OF assms(1) km [OF that] nth [OF that]] .
  show 1: "\<forall>p \<in> set partial. fst p < length texts \<and> item (texts ! fst p) = Inr (snd p)"
  proof
    fix x assume "x \<in> set partial"
    then obtain out where "out \<in> set outs" "x \<in> set out" using p by auto
    then obtain q where "q < length outs" "outs ! q = out" by (auto simp: in_set_conv_nth)
    with it [of q] lo \<open>x \<in> set out\<close>
    show "fst x < length texts \<and> item (texts ! fst x) = Inr (snd x)" by auto
  qed
  have mf: "map fst partial = concat (map (\<lambda>k. [k * sz..<k * sz + min sz (?len k)]) completion)"
  proof -
    have "map (map fst) outs = map (\<lambda>k. [k * sz..<k * sz + min sz (?len k)]) completion"
      by (rule nth_equalityI) (use lo f in auto)
    then show ?thesis by (simp add: p map_concat)
  qed
  show "distinct (map fst partial)"
    unfolding mf by (rule distinct_concat_ranges [OF dc])
  show "set (map fst partial) = {..<length texts}"
  proof
    show "set (map fst partial) \<subseteq> {..<length texts}" using 1 by auto
    show "{..<length texts} \<subseteq> set (map fst partial)"
    proof
      fix i assume "i \<in> {..<length texts}"
      then have i: "i < length texts" by simp
      have k: "i div sz \<in> set completion" using chunk_covers [OF assms(1) i] sc by simp
      have "i div sz * sz \<le> i" by simp
      moreover have "i < i div sz * sz + min sz (?len (i div sz))"
      proof -
        have a: "i mod sz < sz" using assms(1) by simp
        have b: "i div sz * sz + i mod sz = i" by simp
        have "i < i div sz * sz + sz" using a b by linarith
        moreover have "i < i div sz * sz + (length texts - i div sz * sz)" using i by simp
        ultimately show ?thesis by (simp add: min_def)
      qed
      ultimately have "i \<in> set [i div sz * sz..<i div sz * sz + min sz (?len (i div sz))]" by simp
      with k have "\<exists>k \<in> set completion. i \<in> set [k * sz..<k * sz + min sz (?len k)]" by blast
      then show "i \<in> set (map fst partial)" unfolding mf by simp
    qed
  qed
qed


lemma batch_pointwise:
  assumes "0 < sz" and "completion_order completion texts sz"
    and "partial_results_of item completion texts sz = Inr partial" and "i < length texts"
  shows "\<exists>r. item (texts ! i) = Inr r \<and>
           fill_results (replicate (length texts) None) partial ! i = Some r"
proof -
  note sh = partial_results_shape [OF assms(1-3)]
  have "i \<in> fst ` set (rev partial)" using sh(2) assms(4) by auto
  then obtain r where m: "map_of (rev partial) i = Some r"
    by (metis map_of_eq_None_iff not_Some_eq)
  then have "(i, r) \<in> set partial" using map_of_SomeD by fastforce
  with sh(1) have "item (texts ! i) = Inr r" by auto
  moreover have "fill_results (replicate (length texts) None) partial ! i = Some r"
    using assms(4) m by (simp add: nth_fill_results)
  ultimately show ?thesis by blast
qed

lemma batch_any_order_succeeds:
  assumes "\<forall>t \<in> set texts. \<exists>r. item t = Inr r"
    and "set completion \<subseteq> {..<length (chunker texts sz)}"
  shows "\<exists>partial. partial_results_of item completion texts sz = Inr partial"
proof -
  let ?tasks = "map (\<lambda>(start_idx, chunk_texts). batch_worker item start_idx chunk_texts) (chunker texts sz)"
  have ok: "\<exists>out. ?tasks ! k = Inr out" if "k < length (chunker texts sz)" for k
  proof -
    have "set (take sz (drop (k * sz) texts)) \<subseteq> set texts"
      by (meson set_take_subset set_drop_subset subset_trans)
    then have "\<forall>t \<in> set (take sz (drop (k * sz) texts)). \<exists>r. item t = Inr r"
      using assms(1) by blast
    from batch_worker_succeeds [OF this, of "k * sz"] that show ?thesis
      by (simp add: nth_chunker)
  qed
  have "map (\<lambda>k. ?tasks ! k) completion = map Inr (map (\<lambda>k. projr (?tasks ! k)) completion)"
  proof (rule nth_equalityI)
    show "length (map (\<lambda>k. ?tasks ! k) completion)
          = length (map Inr (map (\<lambda>k. projr (?tasks ! k)) completion))" by simp
  next
    fix q assume "q < length (map (\<lambda>k. ?tasks ! k) completion)"
    then have q: "q < length completion" by simp
    then have "completion ! q < length (chunker texts sz)" using assms(2) nth_mem by blast
    from ok [OF this] q
    show "map (\<lambda>k. ?tasks ! k) completion ! q
          = map Inr (map (\<lambda>k. projr (?tasks ! k)) completion) ! q"
      by auto
  qed
  then show ?thesis
    unfolding partial_results_of_def Let_def
    by (simp only: gather_completed_map_Inr) blast
qed

text \<open>
  Claim C3. Whenever \<open>batch_extract_tasks\<close> returns for an input list, the returned list is
  as long as the input, and its element at index \<open>i\<close> is the result of the extraction of
  the \<open>i\<close>-th text. The list is the same for every order in which the chunks complete.
  The collected pairs carry each index of the input exactly once, so each slot of the
  pre-allocated list is written exactly once, at the global index of its item.
\<close>

theorem batch_results_mirror_inputs:
  assumes "completion_order completion texts (nat batch_size)"
    and "batch_extract_tasks extract_item completion texts batch_size = Inr results"
  shows "length results = length texts \<and>
         (\<forall>i < length texts. \<exists>r. extract_item (texts ! i) = Inr r \<and> results ! i = Some r) \<and>
         (\<forall>completion'. completion_order completion' texts (nat batch_size) \<longrightarrow>
            batch_extract_tasks extract_item completion' texts batch_size = Inr results) \<and>
         (\<exists>partial. partial_results_of extract_item completion texts (nat batch_size) = Inr partial \<and>
            distinct (map fst partial) \<and> set (map fst partial) = {..<length texts})"
proof -
  let ?sz = "nat batch_size"
  have pos: "0 < batch_size" using assms(2) by (auto simp: batch_extract_tasks_def split: if_splits)
  then have sz: "0 < ?sz" by simp
  from assms(2) pos obtain partial where
    p: "partial_results_of extract_item completion texts ?sz = Inr partial"
    and r: "results = fill_results (replicate (length texts) None) partial"
    by (auto simp: batch_extract_tasks_def split: sum.splits)
  have len: "length results = length texts" by (simp add: r)
  have pw: "\<forall>i < length texts. \<exists>r. extract_item (texts ! i) = Inr r \<and> results ! i = Some r"
    using batch_pointwise [OF sz assms(1) p] r by blast
  have all: "\<forall>t \<in> set texts. \<exists>r. extract_item t = Inr r"
    using pw by (metis in_set_conv_nth)
  have other: "batch_extract_tasks extract_item completion' texts batch_size = Inr results"
    if c: "completion_order completion' texts ?sz" for completion'
  proof -
    have "set completion' \<subseteq> {..<length (chunker texts ?sz)}"
      using c by (simp add: completion_order_def)
    from batch_any_order_succeeds [OF all this] obtain partial' where
      p': "partial_results_of extract_item completion' texts ?sz = Inr partial'" by blast
    let ?results' = "fill_results (replicate (length texts) None) partial'"
    have "?results' = results"
    proof (rule nth_equalityI)
      show "length ?results' = length results" by (simp add: len)
    next
      fix i assume "i < length ?results'"
      then have i: "i < length texts" by simp
      from batch_pointwise [OF sz c p' i] pw i show "?results' ! i = results ! i" by auto
    qed
    then show ?thesis using p' pos by (simp add: batch_extract_tasks_def)
  qed
  from partial_results_shape(2,3) [OF sz assms(1) p] p len pw other show ?thesis by blast
qed


lemma echo_items:
  "uncached_item echo_extractor ''chat'' ''do a'' = Inr (echo_result ''do a'')"
  "uncached_item echo_extractor ''chat'' ''do b'' = Inr (echo_result ''do b'')"
  "uncached_item echo_extractor ''chat'' ''do c'' = Inr (echo_result ''do c'')"
  "uncached_item echo_extractor ''chat'' ''do d'' = Inr (echo_result ''do d'')"
  "uncached_item echo_extractor ''chat'' ''do e'' = Inr (echo_result ''do e'')"
  "uncached_item echo_extractor ''chat'' [] =
     Inl (ValueError ''Text must be a non-empty string for classification.'')"
  by (simp_all add: uncached_item_def echo_extractor_def TaskExtractor_init_def extract_task_def
      run_pipeline_def BERTClassifier_classify_def BERTClassifier_preprocess_def
      TaskNERModel_extract_entities_def minimal_clean_options_def echo_bert_def demo_ner_def
      clean_defs build_result_def initial_task_def getitem_def setitem_def get_or_def
      validate_task_def mk_task_def echo_result_def)

lemma five_chunks:
  "chunker [''do a'', ''do b'', ''do c'', ''do d'', ''do e''] 2
     = [(0, [''do a'', ''do b'']), (2, [''do c'', ''do d'']), (4, [''do e''])]"
  "chunker [''do a'', ''do b'', [], ''do d'', ''do e''] 5
     = [(0, [''do a'', ''do b'', [], ''do d'', ''do e''])]"
  "chunker [''do a'', ''do b'', [], ''do d'', ''do e''] 2
     = [(0, [''do a'', ''do b'']), (2, [[], ''do d'']), (4, [''do e''])]"
  by (simp_all add: chunker_def upt_rec)

text \<open>
  Five texts in chunks of two; the last chunk completes first. The result list is the
  one of the submission order.
\<close>

theorem batch_results_mirror_inputs_witness:
  "completion_order [2, 0, 1] [''do a'', ''do b'', ''do c'', ''do d'', ''do e''] (nat 2) \<and>
   batch_extract_tasks (uncached_item echo_extractor ''chat'') [2, 0, 1]
       [''do a'', ''do b'', ''do c'', ''do d'', ''do e''] 2
     = Inr [Some (echo_result ''do a''), Some (echo_result ''do b''), Some (echo_result ''do c''),
            Some (echo_result ''do d''), Some (echo_result ''do e'')] \<and>
   completion_order [0, 1, 2] [''do a'', ''do b'', ''do c'', ''do d'', ''do e''] (nat 2) \<and>
   batch_extract_tasks (uncached_item echo_extractor ''chat'') [0, 1, 2]
       [''do a'', ''do b'', ''do c'', ''do d'', ''do e''] 2
     = Inr [Some (echo_result ''do a''), Some (echo_result ''do b''), Some (echo_result ''do c''),
            Some (echo_result ''do d''), Some (echo_result ''do e'')]"
proof -
  have c1: "completion_order [2, 0, 1] [''do a'', ''do b'', ''do c'', ''do d'', ''do e''] (nat 2)"
    by (auto simp: completion_order_def five_chunks)
  have c2: "completion_order [0, 1, 2] [''do a'', ''do b'', ''do c'', ''do d'', ''do e''] (nat 2)"
    by (auto simp: completion_order_def five_chunks)
  have b: "batch_extract_tasks (uncached_item echo_extractor ''chat'') [2, 0, 1]
       [''do a'', ''do b'', ''do c'', ''do d'', ''do e''] 2
     = Inr [Some (echo_result ''do a''), Some (echo_result ''do b''), Some (echo_result ''do c''),
            Some (echo_result ''do d''), Some (echo_result ''do e'')]"
    by (simp add: batch_extract_tasks_def partial_results_of_def five_chunks batch_worker_def
        echo_items fill_results_def enumerate_eq_zip upt_rec)
  from batch_results_mirror_inputs [OF c1 b] c1 c2 b show ?thesis by blast
qed


section \<open>The retry loop of \<open>process_communication\<close>\<close>

lemma run_attempt_failed_trace:
  "snd (run_attempt self j text ch opts) = Inl e \<Longrightarrow> fst (run_attempt self j text ch opts) = []"
proof -
  define c where "c = (if ch \<noteq> [] then ch else ''default'')"
  show "snd (run_attempt self j text ch opts) = Inl e \<Longrightarrow> fst (run_attempt self j text ch opts) = []"
    unfolding run_attempt_def Let_def c_def [symmetric]
    by (cases "text_processor self j text";
        cases "entity_extractor self j text c (get_or (1 / 2) (entity_confidence self))";
        cases "task_extractor self j text c (get_or True (use_task_cache opts))") simp_all
qed

lemma fail_trace_empty [simp]: "fail_trace self text ch opts a a = []"
  by (simp add: fail_trace_def)

lemma fail_trace_first:
  assumes "a < k"
  shows "fail_trace self text ch opts a k =
     (LogAttemptError (a + 1) (get_or 1 (max_attempts self))
          (str_of_error (projl (snd (run_attempt self (a + 1) text ch opts)))) #
        (if a + 1 < get_or 1 (max_attempts self) \<and> get_or 0 (backoff_factor self) > 0
         then [Sleep (get_or 0 (backoff_factor self) * real_of_int (a + 1))] else []))
     @ fail_trace self text ch opts (a + 1) k"
proof -
  have "[a + 1..k] = (a + 1) # [a + 1 + 1..k]" using assms by (simp add: upto_rec1)
  then show ?thesis by (simp add: fail_trace_def)
qed

lemma loop_skip:
  assumes "a \<le> k" and "k \<le> get_or 1 (max_attempts self)"
    and "\<forall>j. a < j \<and> j \<le> k \<longrightarrow> attempt_fails self text ch opts j"
  shows "attempt_loop self False text ch opts a lerr tr =
         attempt_loop self False text ch opts k
           (if a < k then Some (projl (snd (run_attempt self k text ch opts))) else lerr)
           (tr @ fail_trace self text ch opts a k)"
  using assms
proof (induction "nat (k - a)" arbitrary: a lerr tr)
  case 0
  then have "a = k" by simp
  then show ?case by simp
next
  case (Suc n)
  then have lt: "a < k" by linarith
  let ?m = "get_or 1 (max_attempts self)"
  let ?b = "get_or 0 (backoff_factor self)"
  have am: "a < ?m" using lt Suc.prems(2) by simp
  have "attempt_fails self text ch opts (a + 1)" using Suc.prems(3) lt by simp
  then obtain e where e: "snd (run_attempt self (a + 1) text ch opts) = Inl e"
    by (auto simp: attempt_fails_def)
  then have ra: "run_attempt self (a + 1) text ch opts = ([], Inl e)"
    using run_attempt_failed_trace [OF e] by (metis prod.collapse)
  let ?tr1 = "tr @ (LogAttemptError (a + 1) ?m (str_of_error e) #
        (if a + 1 < ?m \<and> ?b > 0 then [Sleep (?b * real_of_int (a + 1))] else []))"
  have step: "attempt_loop self False text ch opts a lerr tr =
              attempt_loop self False text ch opts (a + 1) (Some e) ?tr1"
    by (subst attempt_loop.simps) (simp add: am ra Let_def)
  have n: "n = nat (k - (a + 1))" using Suc.hyps(2) by linarith
  have le: "a + 1 \<le> k" using lt by simp
  have rest: "\<forall>j. a + 1 < j \<and> j \<le> k \<longrightarrow> attempt_fails self text ch opts j"
    using Suc.prems(3) by auto
  note ih = Suc.hyps(1) [OF n le Suc.prems(2) rest, of "Some e" ?tr1]
  have lerr': "(if a + 1 < k then Some (projl (snd (run_attempt self k text ch opts))) else Some e)
               = Some (projl (snd (run_attempt self k text ch opts)))"
    using le e by (cases "a + 1 < k") auto
  have tr': "?tr1 @ fail_trace self text ch opts (a + 1) k = tr @ fail_trace self text ch opts a k"
    using fail_trace_first [OF lt, of self "text" ch opts] e by simp
  show ?case using step ih lt by (simp only: lerr' tr' if_True)
qed

lemma loop_exhausted:
  "attempt_loop self in_loop text ch opts (get_or 1 (max_attempts self)) lerr tr =
     (tr @ [LogFailure (failure_message (get_or 1 (max_attempts self)) lerr)],
      Inl (RuntimeError (failure_message (get_or 1 (max_attempts self)) lerr)))"
  by (subst attempt_loop.simps) (simp add: Let_def)

lemma loop_returns:
  assumes "a < get_or 1 (max_attempts self)"
    and "run_attempt self (a + 1) text ch opts = (w, Inr b)"
  shows "attempt_loop self in_loop text ch opts a lerr tr = (tr @ w, Inr b)"
  by (subst attempt_loop.simps) (simp add: assms Let_def)

lemma delays_append [simp]: "delays (xs @ ys) = delays xs @ delays ys"
  by (simp add: delays_def)

lemma attempt_errors_append [simp]: "attempt_errors (xs @ ys) = attempt_errors xs @ attempt_errors ys"
  by (simp add: attempt_errors_def)

lemma delays_fail_trace:
  assumes "a \<le> k"
  shows "delays (fail_trace self text ch opts a k) =
     (if get_or 0 (backoff_factor self) > 0
      then map (\<lambda>j. get_or 0 (backoff_factor self) * real_of_int j)
             (filter (\<lambda>j. j < get_or 1 (max_attempts self)) [a + 1..k])
      else [])"
  using assms
proof (induction "nat (k - a)" arbitrary: a)
  case 0
  then have "a = k" by simp
  then show ?case by (simp add: delays_def)
next
  case (Suc n)
  then have lt: "a < k" by linarith
  have n: "n = nat (k - (a + 1))" using Suc.hyps(2) by linarith
  have le: "a + 1 \<le> k" using lt by simp
  have up: "[a + 1..k] = (a + 1) # [a + 1 + 1..k]" using lt by (simp add: upto_rec1)
  show ?case
    using Suc.hyps(1) [OF n le]
    by (simp add: fail_trace_first [OF lt] up) (simp add: delays_def)
qed

lemma map_fst_attempt_errors_fail_trace:
  assumes "a \<le> k"
  shows "map fst (attempt_errors (fail_trace self text ch opts a k)) = [a + 1..k]"
  using assms
proof (induction "nat (k - a)" arbitrary: a)
  case 0
  then have "a = k" by simp
  then show ?case by (simp add: attempt_errors_def)
next
  case (Suc n)
  then have lt: "a < k" by linarith
  have n: "n = nat (k - (a + 1))" using Suc.hyps(2) by linarith
  have le: "a + 1 \<le> k" using lt by simp
  have up: "[a + 1..k] = (a + 1) # [a + 1 + 1..k]" using lt by (simp add: upto_rec1)
  show ?case
    using Suc.hyps(1) [OF n le]
    by (simp add: fail_trace_first [OF lt] up) (simp add: attempt_errors_def)
qed

lemma run_attempt_warnings:
  assumes "run_attempt self j text ch opts = (w, Inr b)"
  shows "w = (if final_confidence (task_extraction b)
                  < max (get_or (1 / 2) (entity_confidence self)) (get_or (6 / 10) (task_confidence self))
              then [LogLowConfidence (final_confidence (task_extraction b))
                      (max (get_or (1 / 2) (entity_confidence self)) (get_or (6 / 10) (task_confidence self)))]
              else [])"
proof -
  define c where "c = (if ch \<noteq> [] then ch else ''default'')"
  show ?thesis
    using assms unfolding run_attempt_def Let_def c_def [symmetric]
    by (cases "text_processor self j text";
        cases "entity_extractor self j text c (get_or (1 / 2) (entity_confidence self))";
        cases "task_extractor self j text c (get_or True (use_task_cache opts))") auto
qed

lemma warnings_quiet:
  assumes "run_attempt self j text ch opts = (w, Inr b)"
  shows "delays w = [] \<and> attempt_errors w = []"
  using run_attempt_warnings [OF assms] by (simp add: delays_def attempt_errors_def)

lemma filter_below_all:
  fixes k m :: int
  assumes "k < m"
  shows "filter (\<lambda>j. j < m) [a..k] = [a..k]"
  using assms by (auto intro: filter_True)

lemma filter_below_last:
  fixes m :: int
  assumes "a \<le> m"
  shows "filter (\<lambda>j. j < m) [a..m] = [a..m - 1]"
proof -
  have "[a..m] = [a..m - 1] @ [m]" using assms by (simp add: upto_rec2)
  then show ?thesis by (simp add: filter_below_all)
qed

text \<open>
  Claim C6. \<open>process_communication\<close>, called from synchronous code on a non-empty text
  and channel, with \<open>max_attempts\<close> at least 1. If the attempts before the \<open>k\<close>-th
  raise and the \<open>k\<close>-th returns a result, the call returns that result, whatever its
  confidence: a final confidence below \<open>max(entity_threshold, task_threshold)\<close> is logged
  as a warning and no further attempt is made. Exactly the raising attempts \<open>1\<close> to
  \<open>k - 1\<close> are logged as errors and retried, and with a positive \<open>backoff_factor\<close> the
  delay before the retry of attempt \<open>j\<close> is \<open>backoff_factor * j\<close>; without one there is
  no delay. If all \<open>max_attempts\<close> attempts raise, the call raises a \<open>RuntimeError\<close>
  whose message names the number of attempts and ends with the message of the last
  exception; the delays are those before attempts \<open>2\<close> to \<open>max_attempts\<close>.
\<close>

theorem retry_only_on_exceptions:
  assumes "strip text \<noteq> []" and "strip channel_type \<noteq> []"
    and "1 \<le> k" and "k \<le> get_or 1 (max_attempts self)"
    and "\<forall>j. 1 \<le> j \<and> j < k \<longrightarrow> attempt_fails self text channel_type options j"
  shows
    "(\<forall>w b. run_attempt self k text channel_type options = (w, Inr b) \<longrightarrow>
        snd (process_communication self False text channel_type options) = Inr b \<and>
        map fst (attempt_errors (fst (process_communication self False text channel_type options)))
          = [1..k - 1] \<and>
        delays (fst (process_communication self False text channel_type options))
          = (if get_or 0 (backoff_factor self) > 0
             then map (\<lambda>j. get_or 0 (backoff_factor self) * real_of_int j) [1..k - 1] else []) \<and>
        (final_confidence (task_extraction b)
           < max (get_or (1 / 2) (entity_confidence self)) (get_or (6 / 10) (task_confidence self)) \<longrightarrow>
         LogLowConfidence (final_confidence (task_extraction b))
           (max (get_or (1 / 2) (entity_confidence self)) (get_or (6 / 10) (task_confidence self)))
           \<in> set (fst (process_communication self False text channel_type options)))) \<and>
     (\<forall>e. k = get_or 1 (max_attempts self) \<and>
          snd (run_attempt self k text channel_type options) = Inl e \<longrightarrow>
        snd (process_communication self False text channel_type options)
          = Inl (RuntimeError (''Failed to process communication after '' @ str_int k @
                               '' attempts: '' @ str_of_error e)) \<and>
        map fst (attempt_errors (fst (process_communication self False text channel_type options)))
          = [1..k] \<and>
        delays (fst (process_communication self False text channel_type options))
          = (if get_or 0 (backoff_factor self) > 0
             then map (\<lambda>j. get_or 0 (backoff_factor self) * real_of_int j) [1..k - 1] else []))"
proof (intro conjI allI impI)
  let ?m = "get_or 1 (max_attempts self)"
  let ?B = "get_or 0 (backoff_factor self)"
  let ?pc = "process_communication self False text channel_type options"
  have pc: "?pc = attempt_loop self False text channel_type options 0 None []"
    using assms(1,2) by (simp add: process_communication_def)
  have fails: "\<forall>j. 0 < j \<and> j \<le> k - 1 \<longrightarrow> attempt_fails self text channel_type options j"
    using assms(5) by auto
  have skip: "?pc = attempt_loop self False text channel_type options (k - 1)
        (if 0 < k - 1 then Some (projl (snd (run_attempt self (k - 1) text channel_type options))) else None)
        (fail_trace self text channel_type options 0 (k - 1))"
    using loop_skip [of 0 "k - 1" self "text" channel_type options None "[]"] assms(3,4) fails pc
    by simp
  have d1: "delays (fail_trace self text channel_type options 0 (k - 1))
        = (if ?B > 0 then map (\<lambda>j. ?B * real_of_int j) [1..k - 1] else [])"
    using delays_fail_trace [of 0 "k - 1" self "text" channel_type options] assms(3,4)
    by (simp add: filter_below_all)
  have e1: "map fst (attempt_errors (fail_trace self text channel_type options 0 (k - 1))) = [1..k - 1]"
    using map_fst_attempt_errors_fail_trace [of 0 "k - 1" self "text" channel_type options] assms(3)
    by simp
  {
    fix w b assume ra: "run_attempt self k text channel_type options = (w, Inr b)"
    have "k - 1 < ?m" using assms(4) by simp
    from loop_returns [OF this, of "text" channel_type options w b] ra
    have r: "?pc = (fail_trace self text channel_type options 0 (k - 1) @ w, Inr b)"
      using skip by simp
    show "snd ?pc = Inr b" by (simp add: r)
    show "map fst (attempt_errors (fst ?pc)) = [1..k - 1]"
      using warnings_quiet [OF ra] e1 by (simp add: r)
    show "delays (fst ?pc) = (if ?B > 0 then map (\<lambda>j. ?B * real_of_int j) [1..k - 1] else [])"
      using warnings_quiet [OF ra] d1 by (simp add: r)
    assume "final_confidence (task_extraction b)
           < max (get_or (1 / 2) (entity_confidence self)) (get_or (6 / 10) (task_confidence self))"
    with run_attempt_warnings [OF ra]
    show "LogLowConfidence (final_confidence (task_extraction b))
           (max (get_or (1 / 2) (entity_confidence self)) (get_or (6 / 10) (task_confidence self)))
           \<in> set (fst ?pc)"
      by (simp add: r)
  }
  {
    fix e assume a: "k = ?m \<and> snd (run_attempt self k text channel_type options) = Inl e"
    then have km: "?m = k" and ek: "snd (run_attempt self k text channel_type options) = Inl e"
      by blast+
    have allf: "\<forall>j. 0 < j \<and> j \<le> k \<longrightarrow> attempt_fails self text channel_type options j"
    proof (intro allI impI)
      fix j assume j: "0 < j \<and> j \<le> k"
      show "attempt_fails self text channel_type options j"
      proof (cases "j = k")
        case True
        with ek show ?thesis by (auto simp: attempt_fails_def)
      next
        case False
        with j have "1 \<le> j \<and> j < k" by linarith
        with assms(5) show ?thesis by blast
      qed
    qed
    have k0: "0 \<le> k" "0 < k" using assms(3) by simp_all
    have kk: "k \<le> ?m" using km by simp
    have "attempt_loop self False text channel_type options 0 None [] =
        attempt_loop self False text channel_type options k
          (if 0 < k then Some (projl (snd (run_attempt self k text channel_type options))) else None)
          ([] @ fail_trace self text channel_type options 0 k)"
      by (rule loop_skip [OF k0(1) kk allf])
    also have "\<dots> = attempt_loop self False text channel_type options k (Some e)
          (fail_trace self text channel_type options 0 k)"
      using k0(2) ek by simp
    also have "\<dots> = (fail_trace self text channel_type options 0 k
                          @ [LogFailure (failure_message k (Some e))],
                         Inl (RuntimeError (failure_message k (Some e))))"
      using loop_exhausted [of self False "text" channel_type options "Some e"
          "fail_trace self text channel_type options 0 k"]
      by (simp only: km)
    finally have r: "?pc = (fail_trace self text channel_type options 0 k
                          @ [LogFailure (failure_message k (Some e))],
                         Inl (RuntimeError (failure_message k (Some e))))"
      by (simp only: pc)
    have q: "delays [LogFailure (failure_message k (Some e))] = []"
      "attempt_errors [LogFailure (failure_message k (Some e))] = []"
      by (simp_all add: delays_def attempt_errors_def)
    have fd: "delays (fail_trace self text channel_type options 0 k)
          = (if ?B > 0 then map (\<lambda>j. ?B * real_of_int j) [1..k - 1] else [])"
    proof -
      have "filter (\<lambda>j. j < ?m) [0 + 1..k] = [1..k - 1]"
        using filter_below_last [of 1 k] assms(3) by (simp add: km)
      with delays_fail_trace [OF k0(1), of self "text" channel_type options]
      show ?thesis by (simp only:)
    qed
    have fe: "map fst (attempt_errors (fail_trace self text channel_type options 0 k)) = [1..k]"
      using map_fst_attempt_errors_fail_trace [OF k0(1), of self "text" channel_type options] by simp
    show "snd ?pc = Inl (RuntimeError (''Failed to process communication after '' @ str_int k @
                               '' attempts: '' @ str_of_error e))"
      by (simp add: r failure_message_def)
    show "map fst (attempt_errors (fst ?pc)) = [1..k]"
      by (simp add: r q fe)
    show "delays (fst ?pc) = (if ?B > 0 then map (\<lambda>j. ?B * real_of_int j) [1..k - 1] else [])"
      by (simp only: r fst_conv delays_append q fd append_Nil2)
  }
qed

lemma strip_examples:
  "strip ''do a'' = ''do a''" "strip ''do b'' = ''do b''" "strip ''do c'' = ''do c''"
  "strip ''do d'' = ''do d''" "strip ''do e'' = ''do e''" "strip ''chat'' = ''chat''" "strip [] = []"
  by (simp_all add: strip_def is_space_def)

lemma flaky_attempts:
  "run_attempt (demo_processor flaky_task_extractor 3) 3 ''do a'' ''chat'' no_options
     = ([LogLowConfidence (9 / 20) (3 / 5)], Inr (echo_bundle ''do a''))"
  "j < 3 \<Longrightarrow> snd (run_attempt (demo_processor flaky_task_extractor 3) j ''do a'' ''chat'' no_options)
     = Inl (RuntimeError ''model inference failed'')"
  by (simp_all add: run_attempt_def demo_processor_def flaky_task_extractor_def
      plain_text_processor_def no_entity_extractor_def no_options_def get_or_def echo_items
      strip_examples echo_bundle_def echo_result_def Let_def)

lemma broken_attempts:
  "snd (run_attempt (demo_processor broken_task_extractor 2) j ''do a'' ''chat'' no_options)
     = Inl (RuntimeError ''model inference failed'')"
  by (simp add: run_attempt_def demo_processor_def broken_task_extractor_def
      plain_text_processor_def no_entity_extractor_def no_options_def get_or_def Let_def)

lemma upto_examples: "[1..(2::int)] = [1, 2]" "[1..(1::int)] = [1]" "[1..(3::int) - 1] = [1, 2]"
  "[1..(2::int) - 1] = [1]"
  by (simp_all add: upto_rec1)

text \<open>
  Scenario C of the specification: three attempts allowed, a backoff factor of 0.1, a
  task extractor that raises twice and then answers. The call returns the bundle of the
  third attempt after waiting 0.1 and 0.2; its confidence 0.45 is below the threshold 0.6,
  which is logged and not retried. With an extractor that always raises and two
  attempts allowed, the call raises the aggregated error after one wait of 0.1.
\<close>

theorem retry_only_on_exceptions_witness:
  "strip ''do a'' \<noteq> [] \<and> strip ''chat'' \<noteq> [] \<and> (1::int) \<le> 3 \<and>
   3 \<le> get_or 1 (max_attempts (demo_processor flaky_task_extractor 3)) \<and>
   attempt_fails (demo_processor flaky_task_extractor 3) ''do a'' ''chat'' no_options 1 \<and>
   attempt_fails (demo_processor flaky_task_extractor 3) ''do a'' ''chat'' no_options 2 \<and>
   snd (process_communication (demo_processor flaky_task_extractor 3) False ''do a'' ''chat'' no_options)
     = Inr (echo_bundle ''do a'') \<and>
   delays (fst (process_communication (demo_processor flaky_task_extractor 3) False ''do a'' ''chat''
                  no_options)) = [1 / 10, 2 / 10] \<and>
   LogLowConfidence (9 / 20) (3 / 5)
     \<in> set (fst (process_communication (demo_processor flaky_task_extractor 3) False ''do a'' ''chat''
                  no_options)) \<and>
   (2::int) = get_or 1 (max_attempts (demo_processor broken_task_extractor 2)) \<and>
   snd (process_communication (demo_processor broken_task_extractor 2) False ''do a'' ''chat'' no_options)
     = Inl (RuntimeError ''Failed to process communication after 2 attempts: model inference failed'') \<and>
   delays (fst (process_communication (demo_processor broken_task_extractor 2) False ''do a'' ''chat''
                  no_options)) = [1 / 10]"
proof -
  have s: "strip ''do a'' \<noteq> []" "strip ''chat'' \<noteq> []" by (simp_all add: strip_examples)
  have m3: "3 \<le> get_or 1 (max_attempts (demo_processor flaky_task_extractor 3))"
    and m2: "2 \<le> get_or 1 (max_attempts (demo_processor broken_task_extractor 2))"
    and m2': "(2::int) = get_or 1 (max_attempts (demo_processor broken_task_extractor 2))"
    and b3: "get_or 0 (backoff_factor (demo_processor flaky_task_extractor 3)) = 1 / 10"
    and b2: "get_or 0 (backoff_factor (demo_processor broken_task_extractor 2)) = 1 / 10"
    and th: "max (get_or (1 / 2) (entity_confidence (demo_processor flaky_task_extractor 3)))
               (get_or (3 / 5) (task_confidence (demo_processor flaky_task_extractor 3))) = 3 / 5"
    by (simp_all add: demo_processor_def get_or_def)
  have f3: "\<forall>j. 1 \<le> j \<and> j < 3 \<longrightarrow>
      attempt_fails (demo_processor flaky_task_extractor 3) ''do a'' ''chat'' no_options j"
    by (simp add: attempt_fails_def flaky_attempts)
  have f2: "\<forall>j. 1 \<le> j \<and> j < 2 \<longrightarrow>
      attempt_fails (demo_processor broken_task_extractor 2) ''do a'' ''chat'' no_options j"
    by (simp add: attempt_fails_def broken_attempts)
  have c: "final_confidence (task_extraction (echo_bundle ''do a'')) = 9 / 20"
    by (simp add: echo_bundle_def echo_result_def)
  have k3: "(1::int) \<le> 3" and k2: "(1::int) \<le> 2" by simp_all
  note A = retry_only_on_exceptions [OF s k3 m3 f3, THEN conjunct1, rule_format, OF flaky_attempts(1)]
  note mb = conjI [OF m2' broken_attempts]
  note B = retry_only_on_exceptions [OF s k2 m2 f2, THEN conjunct2, rule_format, OF mb]
  have a1: "snd (process_communication (demo_processor flaky_task_extractor 3) False ''do a'' ''chat'' no_options)
     = Inr (echo_bundle ''do a'')"
    using A by simp
  have a2: "delays (fst (process_communication (demo_processor flaky_task_extractor 3) False ''do a'' ''chat''
                  no_options)) = [1 / 10, 2 / 10]"
    using A by (simp add: b3 upto_examples)
  have a3: "LogLowConfidence (9 / 20) (3 / 5)
     \<in> set (fst (process_communication (demo_processor flaky_task_extractor 3) False ''do a'' ''chat''
                  no_options))"
    using A by (simp add: c th)
  have b1: "snd (process_communication (demo_processor broken_task_extractor 2) False ''do a'' ''chat'' no_options)
     = Inl (RuntimeError ''Failed to process communication after 2 attempts: model inference failed'')"
    using B by (simp add: str_int_def str_nat.simps)
  have b2': "delays (fst (process_communication (demo_processor broken_task_extractor 2) False ''do a'' ''chat''
                  no_options)) = [1 / 10]"
    using B by (simp add: b2 upto_examples)
  have f12: "attempt_fails (demo_processor flaky_task_extractor 3) ''do a'' ''chat'' no_options 1"
    "attempt_fails (demo_processor flaky_task_extractor 3) ''do a'' ''chat'' no_options 2"
    using f3 by simp_all
  from s m3 f12 a1 a2 a3 m2' b1 b2' show ?thesis by simp
qed

section \<open>Failure isolation in the two batch operations\<close>

lemma process_one_item_entry:
  "process_one_item self idx t channel options = (idx, entry_of self channel options t)"
  by (simp add: process_one_item_def entry_of_def split: sum.splits)

lemma worker_loop_total:
  "batch_worker_loop (\<lambda>t. Inr (f t)) start ps = Inr (map (\<lambda>(i, t). (start + i, f t)) ps)"
  by (induction ps) auto

lemma process_chunk_maps_worker:
  "batch_worker (\<lambda>t. Inr (entry_of self channel options t)) start chunk
     = Inr (process_chunk_maps self start chunk channel options)"
  by (simp add: batch_worker_def worker_loop_total process_chunk_maps_def process_one_item_entry)

lemma fill_results_append:
  "fill_results init (a @ b) = fill_results (fill_results init a) b"
  by (simp add: fill_results_def)

lemma foldl_fill_concat:
  "foldl (\<lambda>res c. fill_results res (g c)) init cs = fill_results init (concat (map g cs))"
  by (induction cs arbitrary: init) (simp_all add: fill_results_append fill_results_def)

lemma map_nth_upt_length: "length ys = n \<Longrightarrow> map (\<lambda>k. ys ! k) [0..<n] = ys"
  by (auto simp: map_nth)

lemma batch_process_isolates:
  assumes "strip channel \<noteq> []" and "0 < batch_size"
  shows "batch_process self texts channel batch_size options
         = Inr (map (\<lambda>t. Some (entry_of self channel options t)) texts)"
proof -
  let ?sz = "nat (min batch_size (max (int (length texts)) 1))"
  let ?item = "\<lambda>t. Inr (entry_of self channel options t) :: error + ('a, 'b) batch_entry"
  let ?g = "\<lambda>(start_idx, chunk_texts). process_chunk_maps self start_idx chunk_texts channel options"
  let ?partial = "concat (map ?g (chunker texts ?sz))"
  let ?m = "length (chunker texts ?sz)"
  have sz: "0 < ?sz" using assms(2) by simp
  have bp: "batch_process self texts channel batch_size options
        = Inr (fill_results (replicate (length texts) None) ?partial)"
    using assms
    by (simp add: batch_process_def Let_def foldl_fill_concat [of ?g, unfolded split_def] split_def)
  have tasks: "map (\<lambda>(start_idx, chunk_texts). batch_worker ?item start_idx chunk_texts) (chunker texts ?sz)
        = map Inr (map ?g (chunker texts ?sz))"
    by (simp add: process_chunk_maps_worker split_def)
  have co: "completion_order [0..<?m] texts ?sz"
    by (simp add: completion_order_def atLeast0LessThan)
  have pr: "partial_results_of ?item [0..<?m] texts ?sz = Inr ?partial"
  proof -
    have "length (map Inr (map ?g (chunker texts ?sz)) :: (error + (nat \<times> ('a, 'b) batch_entry) list) list) = ?m"
      by simp
    from map_nth_upt_length [OF this]
    show ?thesis
      unfolding partial_results_of_def Let_def tasks
      by (simp only: gather_completed_map_Inr)
  qed
  have "fill_results (replicate (length texts) None) ?partial
        = map (\<lambda>t. Some (entry_of self channel options t)) texts"
  proof (rule nth_equalityI)
    show "length (fill_results (replicate (length texts) None) ?partial)
          = length (map (\<lambda>t. Some (entry_of self channel options t)) texts)" by simp
  next
    fix i assume "i < length (fill_results (replicate (length texts) None) ?partial)"
    then have i: "i < length texts" by simp
    from batch_pointwise [OF sz co pr i]
    show "fill_results (replicate (length texts) None) ?partial ! i
          = map (\<lambda>t. Some (entry_of self channel options t)) texts ! i"
      using i by auto
  qed
  with bp show ?thesis by simp
qed

lemma steady_attempts:
  "run_attempt (demo_processor steady_task_extractor 1) 1 ''do a'' ''chat'' no_options
     = ([LogLowConfidence (9 / 20) (3 / 5)], Inr (echo_bundle ''do a''))"
  "run_attempt (demo_processor steady_task_extractor 1) 1 ''do b'' ''chat'' no_options
     = ([LogLowConfidence (9 / 20) (3 / 5)], Inr (echo_bundle ''do b''))"
  "run_attempt (demo_processor steady_task_extractor 1) 1 ''do d'' ''chat'' no_options
     = ([LogLowConfidence (9 / 20) (3 / 5)], Inr (echo_bundle ''do d''))"
  "run_attempt (demo_processor steady_task_extractor 1) 1 ''do e'' ''chat'' no_options
     = ([LogLowConfidence (9 / 20) (3 / 5)], Inr (echo_bundle ''do e''))"
  by (simp_all add: run_attempt_def demo_processor_def steady_task_extractor_def
      plain_text_processor_def no_entity_extractor_def no_options_def get_or_def echo_items
      strip_examples echo_bundle_def echo_result_def Let_def)

lemma steady_max: "get_or 1 (max_attempts (demo_processor steady_task_extractor 1)) = 1"
  by (simp add: demo_processor_def get_or_def)

lemma steady_entries:
  "entry_of (demo_processor steady_task_extractor 1) ''chat'' no_options ''do a'' = Processed (echo_bundle ''do a'')"
  "entry_of (demo_processor steady_task_extractor 1) ''chat'' no_options ''do b'' = Processed (echo_bundle ''do b'')"
  "entry_of (demo_processor steady_task_extractor 1) ''chat'' no_options ''do d'' = Processed (echo_bundle ''do d'')"
  "entry_of (demo_processor steady_task_extractor 1) ''chat'' no_options ''do e'' = Processed (echo_bundle ''do e'')"
  "entry_of (demo_processor steady_task_extractor 1) ''chat'' no_options []
     = ErrorMarker ''process_communication requires a non-empty text string.''"
proof -
  have lt: "0 < get_or 1 (max_attempts (demo_processor steady_task_extractor 1))"
    by (simp add: steady_max)
  note r = loop_returns [OF lt, of _ "''chat''" no_options _ _ True None "[]", simplified]
  show "entry_of (demo_processor steady_task_extractor 1) ''chat'' no_options ''do a'' = Processed (echo_bundle ''do a'')"
    by (simp add: entry_of_def process_one_item_def process_communication_def strip_examples
        r [OF steady_attempts(1)])
  show "entry_of (demo_processor steady_task_extractor 1) ''chat'' no_options ''do b'' = Processed (echo_bundle ''do b'')"
    by (simp add: entry_of_def process_one_item_def process_communication_def strip_examples
        r [OF steady_attempts(2)])
  show "entry_of (demo_processor steady_task_extractor 1) ''chat'' no_options ''do d'' = Processed (echo_bundle ''do d'')"
    by (simp add: entry_of_def process_one_item_def process_communication_def strip_examples
        r [OF steady_attempts(3)])
  show "entry_of (demo_processor steady_task_extractor 1) ''chat'' no_options ''do e'' = Processed (echo_bundle ''do e'')"
    by (simp add: entry_of_def process_one_item_def process_communication_def strip_examples
        r [OF steady_attempts(4)])
  show "entry_of (demo_processor steady_task_extractor 1) ''chat'' no_options []
     = ErrorMarker ''process_communication requires a non-empty text string.''"
    by (simp add: entry_of_def process_one_item_def process_communication_def strip_examples)
qed

text \<open>
  Claim C2, at a batch of five texts whose third item is the empty text and raises in the
  classifier. \<open>batch_process\<close> does what the claim says: five entries, an error marker
  at index 2, bundles at the other indices. \<open>batch_extract_tasks\<close> does not: the
  exception of the item leaves \<open>batch_worker\<close>, \<open>future.result()\<close> raises it again, and
  the call raises instead of returning a list, with a single chunk of five as with chunks
  of two.
\<close>

theorem batch_extract_tasks_aborts_on_item_failure:
  "batch_extract_tasks (uncached_item echo_extractor ''chat'') [0]
       [''do a'', ''do b'', [], ''do d'', ''do e''] 5
     = Inl (ValueError ''Text must be a non-empty string for classification.'') \<and>
   batch_extract_tasks (uncached_item echo_extractor ''chat'') [0, 1, 2]
       [''do a'', ''do b'', [], ''do d'', ''do e''] 2
     = Inl (ValueError ''Text must be a non-empty string for classification.'') \<and>
   batch_process (demo_processor steady_task_extractor 1)
       [''do a'', ''do b'', [], ''do d'', ''do e''] ''chat'' 5 no_options
     = Inr [Some (Processed (echo_bundle ''do a'')), Some (Processed (echo_bundle ''do b'')),
            Some (ErrorMarker ''process_communication requires a non-empty text string.''),
            Some (Processed (echo_bundle ''do d'')), Some (Processed (echo_bundle ''do e''))]"
proof -
  have c: "strip ''chat'' \<noteq> []" by (simp add: strip_examples)
  have p: "(0::int) < 5" by simp
  show ?thesis
    by (simp add: batch_process_isolates [OF c p] steady_entries)
       (simp add: batch_extract_tasks_def partial_results_of_def five_chunks batch_worker_def
          echo_items enumerate_eq_zip upt_rec)
qed

end
